theory Spec2Isabelle
  imports Complex_Main
begin

section \<open>Python values, errors and dictionaries\<close>

text \<open>
  The simulator (\<^verbatim>\<open>device_simulator/a40.py\<close>) is Python 2. Its integers are unbounded
  (\<open>int\<close>), its clock readings are floats (modelled as \<open>real\<close>), and every exception it
  can raise is a value of \<open>error\<close>: a failed dictionary lookup, a \<^verbatim>\<open>struct.error\<close>, a
  failed \<^verbatim>\<open>assert\<close>. \<open>UnsupportedWidth\<close> is the error of the specified decoder.
\<close>

datatype error = KeyError | StructError | AssertionError | UnsupportedWidth

text \<open>\<^verbatim>\<open>range(start, stop, step)\<close> for a positive step.\<close>

definition py_range :: "int \<Rightarrow> int \<Rightarrow> int \<Rightarrow> int list" where
  "py_range start stop step =
     map (\<lambda>i. start + int i * step) [0..<nat ((stop - start + step - 1) div step)]"

text \<open>\<^verbatim>\<open>int(x)\<close> of a float truncates towards zero.\<close>

definition py_int :: "real \<Rightarrow> int" where
  "py_int x = (if 0 \<le> x then \<lfloor>x\<rfloor> else \<lceil>x\<rceil>)"

text \<open>
  A dictionary written down in the source is kept as the list of its items, in the order
  they are inserted; \<open>dict_of\<close> is the dictionary they make (a later item overwrites an
  earlier one with the same key), \<open>dict_keys\<close> its keys, \<open>dict_get\<close> is \<^verbatim>\<open>d.get(k, default)\<close>.
  Python 2 iterates a dictionary in an order of its own; no result below depends on it.
\<close>

definition dict_of :: "('k \<times> 'v) list \<Rightarrow> ('k \<rightharpoonup> 'v)" where
  "dict_of kvs = foldl (\<lambda>m (k, v). m(k \<mapsto> v)) Map.empty kvs"

definition dict_keys :: "('k \<times> 'v) list \<Rightarrow> 'k list" where
  "dict_keys kvs = remdups (map fst kvs)"

definition dict_get :: "('k \<rightharpoonup> 'v) \<Rightarrow> 'k \<Rightarrow> 'v \<Rightarrow> 'v" where
  "dict_get m k d = (case m k of None \<Rightarrow> d | Some v \<Rightarrow> v)"

text \<open>A \<^verbatim>\<open>for\<close> loop over a list whose body may raise: the first error ends the loop.\<close>

fun for_each :: "('s \<Rightarrow> 'a \<Rightarrow> error + 's) \<Rightarrow> 's \<Rightarrow> 'a list \<Rightarrow> error + 's" where
  "for_each f s [] = Inr s"
| "for_each f s (x # xs) = (case f s x of Inl e \<Rightarrow> Inl e | Inr s' \<Rightarrow> for_each f s' xs)"

text \<open>A list comprehension whose element expression may raise.\<close>

fun collect :: "(error + 'a) list \<Rightarrow> error + 'a list" where
  "collect [] = Inr []"
| "collect (x # xs) =
     (case x of Inl e \<Rightarrow> Inl e
      | Inr v \<Rightarrow> (case collect xs of Inl e \<Rightarrow> Inl e | Inr vs \<Rightarrow> Inr (v # vs)))"


section \<open>The register catalog\<close>

text \<open>
  Lines 10 to 71 of \<^verbatim>\<open>a40.py\<close>. The hexadecimal bounds of the source are written in
  decimal: \<^verbatim>\<open>0xC550\<close> = 50512, \<^verbatim>\<open>0xC58C\<close> = 50572, \<^verbatim>\<open>0xC650\<close> = 50768,
  \<^verbatim>\<open>0xC681\<close> = 50817, \<^verbatim>\<open>0xC750\<close> = 51024, \<^verbatim>\<open>0xC78E\<close> = 51086, \<^verbatim>\<open>0xC790\<close> = 51088,
  \<^verbatim>\<open>0xC795\<close> = 51093, \<^verbatim>\<open>0xC850\<close> = 51280, \<^verbatim>\<open>0xC871\<close> = 51313, \<^verbatim>\<open>0xC900\<close> = 51456,
  \<^verbatim>\<open>0xC907\<close> = 51463, \<^verbatim>\<open>0xC950\<close> = 51536, \<^verbatim>\<open>0xCA92\<close> = 51858.
\<close>

definition HOUR_METER :: int where
  "HOUR_METER = 50512"

definition TABLE_1 :: "(int \<times> nat) list" where
  "TABLE_1 = map (\<lambda>addr. (addr, 2)) (py_range 50512 (50572 + 1) 2)"

definition TABLE_2 :: "(int \<times> nat) list" where
  "TABLE_2 = map (\<lambda>addr. (addr, 2)) (py_range 50768 (50817 + 1) 2)"

definition TABLE_3 :: "(int \<times> nat) list" where
  "TABLE_3 = map (\<lambda>addr. (addr, 2)) (py_range 51024 (51086 + 1) 2)
           @ map (\<lambda>addr. (addr, 1)) (py_range 51088 (51093 + 1) 1)"

definition TABLE_4 :: "(int \<times> nat) list" where
  "TABLE_4 = map (\<lambda>addr. (addr, 1)) (py_range 51280 (51313 + 1) 1)"

definition TABLE_5 :: "(int \<times> nat) list" where
  "TABLE_5 = map (\<lambda>addr. (addr, 1)) (py_range 51456 (51463 + 1) 1)"

definition TABLE_6 :: "(int \<times> nat) list" where
  "TABLE_6 = map (\<lambda>addr. (addr, 1)) (py_range 51536 (51858 + 1) 1)"

definition TABLES :: "(int \<times> nat) list list" where
  "TABLES = [TABLE_1, TABLE_2, TABLE_3, TABLE_4, TABLE_5, TABLE_6]"

definition REGISTER_LIMITS_items :: "(int \<times> int list) list" where
  "REGISTER_LIMITS_items =
    [(50520, [0, 50000]), (50514, [0, 50000]), (50528, [0, 20000]), (50544, [0, 1000]),
     (50556, [0, 1000]), (50550, [0, 1000]), (50562, [-1000, 1000]),
     (50522, [0, 50000]), (50516, [0, 50000]), (50530, [0, 20000]), (50546, [0, 1000]),
     (50558, [0, 1000]), (50552, [0, 1000]), (50564, [-1000, 1000]),
     (50524, [0, 50000]), (50518, [0, 50000]), (50532, [0, 20000]), (50548, [0, 1000]),
     (50560, [0, 1000]), (50554, [0, 1000]), (50566, [-1000, 1000]),
     (50526, [3000, 7000]), (50534, [0, 20000]), (50536, [0, 1000]), (50540, [0, 1000]),
     (50538, [0, 1000]), (50542, [-1000, 1000])]"

definition REGISTER_LIMITS :: "int \<rightharpoonup> int list" where
  "REGISTER_LIMITS = dict_of REGISTER_LIMITS_items"

text \<open>\<^verbatim>\<open>ALL\<close> (also bound to \<^verbatim>\<open>_ALL_REGISTERS\<close>): every table merged by \<^verbatim>\<open>update\<close>.\<close>

definition ALL_items :: "(int \<times> nat) list" where
  "ALL_items = concat TABLES"

definition ALL_REGISTERS :: "int \<rightharpoonup> nat" where
  "ALL_REGISTERS = dict_of ALL_items"

text \<open>
  \<^verbatim>\<open>_INITIAL_REGISTER_VALUES\<close>: 0 for every catalog address, then overwritten for each
  address with limits by \<^verbatim>\<open>int(sum(limits)/2)\<close>, an integer (floor) division in Python 2.
\<close>

definition INITIAL_REGISTER_VALUES :: "(int \<times> int) list" where
  "INITIAL_REGISTER_VALUES =
     map (\<lambda>k. (k, 0)) (dict_keys ALL_items)
     @ map (\<lambda>(addr, limits). (addr, sum_list limits div 2)) REGISTER_LIMITS_items"


section \<open>The value codec\<close>

text \<open>
  Lines 212 to 224. \<^verbatim>\<open>struct.pack('>' + t, value)\<close> gives the big-endian two's-complement
  bytes of a signed integer of the size of \<open>t\<close> and raises \<^verbatim>\<open>struct.error\<close> when the value
  does not fit; \<^verbatim>\<open>struct.unpack('>H', b)\<close> reads two bytes as an unsigned short.
\<close>

definition REGISTER_TYPES :: "nat \<rightharpoonup> char" where
  "REGISTER_TYPES = [1 \<mapsto> CHR ''h'', 2 \<mapsto> CHR ''i'', 4 \<mapsto> CHR ''q'']"

definition struct_size :: "char \<Rightarrow> nat option" where
  "struct_size t =
     (if t = CHR ''h'' then Some 2 else if t = CHR ''i'' then Some 4
      else if t = CHR ''q'' then Some 8 else None)"

definition struct_pack :: "char \<Rightarrow> int \<Rightarrow> error + int list" where
  "struct_pack t v =
     (case struct_size t of
        None \<Rightarrow> Inl StructError
      | Some n \<Rightarrow>
          if - (2 ^ (8 * n - 1)) \<le> v \<and> v < 2 ^ (8 * n - 1)
          then Inr (map (\<lambda>j. (v div 256 ^ (n - 1 - j)) mod 256) [0..<n])
          else Inl StructError)"

definition struct_unpack_H :: "int list \<Rightarrow> error + int" where
  "struct_unpack_H b = (case b of [b0, b1] \<Rightarrow> Inr (b0 * 256 + b1) | _ \<Rightarrow> Inl StructError)"

definition pack_value :: "int \<Rightarrow> nat \<Rightarrow> error + int list" where
  "pack_value v width =
     (case REGISTER_TYPES width of
        None \<Rightarrow> Inl KeyError
      | Some value_type \<Rightarrow>
          (case struct_pack value_type v of
             Inl e \<Rightarrow> Inl e
           | Inr byte_string \<Rightarrow>
               collect (map (\<lambda>i. struct_unpack_H (take 2 (drop (2 * i) byte_string)))
                            [0..<width])))"

text \<open>
  Modelled from the spec: the decoder \<^verbatim>\<open>unpack\<close> of the value codec, which the source
  does not contain (it only packs). Section 4.2: it takes a sequence of \<^verbatim>\<open>uint16\<close>
  words, the big-endian 16-bit groups of a two's-complement integer of \<open>width * 16\<close>
  bits; only widths 1, 2 and 4 are supported. An entry outside \<open>0..65535\<close> is no word and
  is refused, as \<^verbatim>\<open>struct.pack('>H', x)\<close> refuses it.
\<close>

definition unpack_value :: "int list \<Rightarrow> error + int" where
  "unpack_value ws =
     (let w = length ws;
          u = foldl (\<lambda>acc x. acc * 65536 + x) 0 ws
      in if w \<noteq> 1 \<and> w \<noteq> 2 \<and> w \<noteq> 4 then Inl UnsupportedWidth
         else if \<not> list_all (\<lambda>x. 0 \<le> x \<and> x < 65536) ws then Inl StructError
         else if 2 ^ (16 * w - 1) \<le> u then Inr (u - 2 ^ (16 * w)) else Inr u)"


section \<open>The stores of the pymodbus library\<close>

text \<open>
  The simulated block extends \<^verbatim>\<open>ModbusSparseDataBlock\<close> of the pymodbus library, and the
  three other stores of a device are \<^verbatim>\<open>ModbusSequentialDataBlock\<close>s. That library is not
  part of the sources. The sparse store is the mapping from word addresses to words of
  section 3 of the specification, with the three operations of section 4.3; where the
  class of the library does something section 4.3 does not say, the definition follows
  the class and says so.
\<close>

type_synonym word_slots = "int \<rightharpoonup> int"

text \<open>
  Modelled from the spec: \<^verbatim>\<open>validate\<close> of the sparse store (pymodbus, not in the
  sources). Section 4.3: true iff every word address in \<open>[address, address + count)\<close> is
  backed. The class of the library tests that \<^verbatim>\<open>range(address, address + count)\<close> is a
  subset of the keys, and before that it refuses a count of 0.
\<close>

definition store_validate :: "word_slots \<Rightarrow> int \<Rightarrow> int \<Rightarrow> bool" where
  "store_validate ws address count =
     (if count = 0 then False
      else list_all (\<lambda>a. ws a \<noteq> None) [address..address + count - 1])"

text \<open>
  Modelled from the spec: \<^verbatim>\<open>getValues\<close>, the read of the sparse store (pymodbus, not in
  the sources). Section 4.3: returns the requested word slots, and is an error where a
  slot is not backed. The class of the library looks up every address of
  \<^verbatim>\<open>range(address, address + count)\<close> and makes no other check.
\<close>

definition store_getValues :: "word_slots \<Rightarrow> int \<Rightarrow> int \<Rightarrow> error + int list" where
  "store_getValues ws address count =
     (if list_all (\<lambda>a. ws a \<noteq> None) [address..address + count - 1]
      then Inr (map (\<lambda>a. the (ws a)) [address..address + count - 1])
      else Inl KeyError)"

text \<open>
  Modelled from the spec: \<^verbatim>\<open>setValues\<close>, the write of the sparse store (pymodbus, not in
  the sources), for a list of values. Section 4.3: overwrites the word slots
  \<open>[address, address + len(values))\<close> unconditionally, with no range check.
\<close>

definition store_setValues :: "word_slots \<Rightarrow> int \<Rightarrow> int list \<Rightarrow> word_slots" where
  "store_setValues ws address vals =
     ws ++ dict_of (map (\<lambda>(i, v). (address + int i, v)) (enumerate 0 vals))"

text \<open>
  Modelled from the spec: \<^verbatim>\<open>setValues\<close> of the sparse store (pymodbus, not in the
  sources) for the argument the simulation passes, a dictionary from word address to word
  that \<^verbatim>\<open>_expand_register_value\<close> has made. Section 4.4: each update is written through
  the codec into the store; the write overwrites exactly the slots of the dictionary.
\<close>

definition store_setValues_dict :: "word_slots \<Rightarrow> int \<Rightarrow> word_slots \<Rightarrow> word_slots" where
  "store_setValues_dict ws address d = ws ++ d"

text \<open>
  Python slices of a list, which the sequential store reads and writes with. A bound of
  \<^verbatim>\<open>xs[i:j]\<close> below 0 counts from the end, and every bound is cut to the length of the
  list. An assignment \<^verbatim>\<open>xs[i:j] = vs\<close> replaces the slice by \<open>vs\<close>, whatever their lengths;
  a slice at or beyond the end is empty, so that the values are appended.
\<close>

definition slice_bound :: "nat \<Rightarrow> int \<Rightarrow> nat" where
  "slice_bound n i = (if i < 0 then nat (int n + i) else min (nat i) n)"

definition py_slice :: "'a list \<Rightarrow> int \<Rightarrow> int \<Rightarrow> 'a list" where
  "py_slice xs i j =
     (let a = slice_bound (length xs) i; b = slice_bound (length xs) j
      in take (b - a) (drop a xs))"

definition py_slice_assign :: "'a list \<Rightarrow> int \<Rightarrow> int \<Rightarrow> 'a list \<Rightarrow> 'a list" where
  "py_slice_assign xs i j vs =
     (let a = slice_bound (length xs) i; b = max a (slice_bound (length xs) j)
      in take a xs @ vs @ drop b xs)"

text \<open>
  Modelled from the spec: the store of the three families that are not simulated, class
  \<^verbatim>\<open>ModbusSequentialDataBlock\<close> of pymodbus (not in the sources), which \<^verbatim>\<open>create\<close> builds
  as \<^verbatim>\<open>ModbusSequentialDataBlock(0, [1])\<close>. Section 4.5 calls them fixed single-element
  stubs and says no more. The class keeps a start address and a list of values;
  \<^verbatim>\<open>validate\<close> compares the request with the two ends of the list, \<^verbatim>\<open>getValues\<close>
  returns the slice \<^verbatim>\<open>values[start:start+count]\<close> and \<^verbatim>\<open>setValues\<close> assigns to the
  slice \<^verbatim>\<open>values[start:start+len(values)]\<close>, where \<^verbatim>\<open>start = address - self.address\<close>.
  Neither of the two raises.
\<close>

record seq_block =
  seq_address :: int
  seq_values :: "int list"

definition seq_validate :: "seq_block \<Rightarrow> int \<Rightarrow> int \<Rightarrow> bool" where
  "seq_validate b address count \<longleftrightarrow>
     seq_address b \<le> address
     \<and> seq_address b + int (length (seq_values b)) \<ge> address + count"

definition seq_getValues :: "seq_block \<Rightarrow> int \<Rightarrow> int \<Rightarrow> int list" where
  "seq_getValues b address count =
     (let start = address - seq_address b
      in py_slice (seq_values b) start (start + count))"

definition seq_setValues :: "seq_block \<Rightarrow> int \<Rightarrow> int list \<Rightarrow> seq_block" where
  "seq_setValues b address vals =
     (let start = address - seq_address b
      in b\<lparr>seq_values := py_slice_assign (seq_values b) start (start + int (length vals)) vals\<rparr>)"


section \<open>The simulated holding registers\<close>

text \<open>
  \<^verbatim>\<open>A40HoldingRegistersDataBlock\<close>, lines 132 to 210: the word slots of the store, the
  last logical value of every address the simulation has visited, and the clock reading
  taken at construction.
\<close>

record datablock =
  slots :: word_slots
  last_values :: "int \<rightharpoonup> int"
  start_time :: real

definition expand_register_value :: "int \<Rightarrow> int \<Rightarrow> error + word_slots" where
  "expand_register_value addr v =
     (case ALL_REGISTERS addr of
        None \<Rightarrow> Inl AssertionError
      | Some width \<Rightarrow>
          (case pack_value v width of
             Inl e \<Rightarrow> Inl e
           | Inr ws \<Rightarrow> Inr (dict_of (map (\<lambda>(i, x). (addr + int i, x)) (enumerate 0 ws)))))"

text \<open>
  \<^verbatim>\<open>_update_varying_register\<close>; \<open>p\<close> is what \<^verbatim>\<open>random.randint(0,100)\<close> returns when the
  \<^verbatim>\<open>else\<close> branch calls it. \<^verbatim>\<open>sum(limits)/2.0\<close> is a float division.
\<close>

definition update_varying_register :: "datablock \<Rightarrow> int \<Rightarrow> int \<Rightarrow> error + datablock" where
  "update_varying_register s addr p =
     (let limits = dict_get REGISTER_LIMITS addr [0, 1000];
          v = (case last_values s addr of
                 None \<Rightarrow> py_int (real_of_int (sum_list limits) / 2)
               | Some l \<Rightarrow>
                   if p < 25 then min (limits ! 1) (l + 25)
                   else if p < 50 then max (limits ! 0) (l - 25)
                   else l)
      in case expand_register_value addr v of
           Inl e \<Rightarrow> Inl e
         | Inr d \<Rightarrow>
             Inr (s\<lparr>last_values := (last_values s)(addr \<mapsto> v),
                    slots := store_setValues_dict (slots s) addr d\<rparr>))"

text \<open>
  \<^verbatim>\<open>random.randint(a, b)\<close> returns an integer \<open>N\<close> with \<open>a \<le> N \<le> b\<close>: both ends are
  possible. \<open>draw_outcomes\<close> are the values the call of line 201 can return.
\<close>

definition randint :: "int \<Rightarrow> int \<Rightarrow> int list" where
  "randint a b = [a..b]"

definition draw_outcomes :: "int list" where
  "draw_outcomes = randint 0 100"

text \<open>
  \<^verbatim>\<open>_step\<close>: one tick. \<open>now\<close> is the clock reading of this tick and \<open>draw k\<close> the random
  draw made for address \<open>k\<close> in it (each address is visited once, so at most one draw is
  made for it).
\<close>

definition step :: "datablock \<Rightarrow> real \<Rightarrow> (int \<Rightarrow> int) \<Rightarrow> error + datablock" where
  "step s now draw =
     (let elapsed_time = now - start_time s;
          diris_time = py_int (elapsed_time / 36)
      in case expand_register_value HOUR_METER diris_time of
           Inl e \<Rightarrow> Inl e
         | Inr d \<Rightarrow>
             for_each (\<lambda>s' k. update_varying_register s' k (draw k))
               (s\<lparr>slots := store_setValues_dict (slots s) HOUR_METER d\<rparr>)
               (dict_keys INITIAL_REGISTER_VALUES))"

text \<open>
  \<^verbatim>\<open>__init__\<close>, lines 141 to 152: the store as it is built, before the simulation is
  started. \<open>vals\<close> are the items of the dictionary passed in.
\<close>

definition init_store :: "(int \<times> int) list \<Rightarrow> error + word_slots" where
  "init_store vals =
     (if \<not> list_all (\<lambda>k. ALL_REGISTERS k \<noteq> None) (dict_keys vals) then Inl AssertionError
      else for_each
             (\<lambda>expanded_values addr.
                case expand_register_value addr (dict_get (dict_of vals) addr 0) of
                  Inl e \<Rightarrow> Inl e
                | Inr d \<Rightarrow> Inr (expanded_values ++ d))
             Map.empty (dict_keys ALL_items))"

text \<open>
  \<^verbatim>\<open>__init__\<close> with \<^verbatim>\<open>dynamic=True\<close> (the default, which \<^verbatim>\<open>create\<close> uses), lines 154 to
  160. \<open>t0\<close> is the clock reading stored as \<^verbatim>\<open>_start_time\<close>; \<open>init_dynamic\<close> is the block
  at line 158, with no last values yet. \<^verbatim>\<open>LoopingCall.start(1.0)\<close> of Twisted then calls
  \<^verbatim>\<open>_step\<close> at once (its parameter \<^verbatim>\<open>now\<close> defaults to true) and again every second:
  the first tick is part of the construction, and \<open>t1\<close> is its clock reading. No address
  has a last value in that call, so it makes no draw and the draws passed to it are of no
  effect (lemma \<open>init_draws_unused\<close>). The looping call would catch an exception of
  \<^verbatim>\<open>_step\<close> and stop; here it is the result of \<open>init\<close>, and it cannot occur while the
  hour meter fits its register (\<open>clock_ok\<close> below).
\<close>

definition init_dynamic :: "(int \<times> int) list \<Rightarrow> real \<Rightarrow> error + datablock" where
  "init_dynamic vals t0 =
     (case init_store vals of
        Inl e \<Rightarrow> Inl e
      | Inr expanded_values \<Rightarrow>
          Inr \<lparr>slots = expanded_values, last_values = Map.empty, start_time = t0\<rparr>)"

definition init :: "(int \<times> int) list \<Rightarrow> real \<Rightarrow> real \<Rightarrow> error + datablock" where
  "init vals t0 t1 =
     (case init_dynamic vals t0 of
        Inl e \<Rightarrow> Inl e
      | Inr s \<Rightarrow> step s t1 (\<lambda>k. 0))"

text \<open>The ticks that follow, each with its clock reading and its draws.\<close>

fun run :: "datablock \<Rightarrow> (real \<times> (int \<Rightarrow> int)) list \<Rightarrow> error + datablock" where
  "run s [] = Inr s"
| "run s ((now, draw) # ticks) =
     (case step s now draw of Inl e \<Rightarrow> Inl e | Inr s' \<Rightarrow> run s' ticks)"

text \<open>The logical value of a catalog address: its words, decoded.\<close>

definition logical_value :: "word_slots \<Rightarrow> int \<Rightarrow> error + int" where
  "logical_value ws addr =
     (case ALL_REGISTERS addr of
        None \<Rightarrow> Inl KeyError
      | Some width \<Rightarrow>
          (case store_getValues ws addr (int width) of
             Inl e \<Rightarrow> Inl e
           | Inr words \<Rightarrow> unpack_value words))"


section \<open>The device context\<close>

text \<open>
  \<^verbatim>\<open>A40SlaveContext\<close>, lines 88 to 130, and \<^verbatim>\<open>create\<close>, lines 73 to 84. The context keeps
  one store per function-code family and passes every request on to the store of the
  family of its function code; the line that would add 1 to the address is commented out
  in each of the three methods. The docstring of \<^verbatim>\<open>getValues\<close> speaks of validating the
  request; the method makes no check of its own.
\<close>

datatype family = DiscreteInputs | Coils | InputRegisters | HoldingRegisters

text \<open>
  Modelled from the spec: \<^verbatim>\<open>decode\<close>, the choice of the store by function code, inherited
  from the context class of pymodbus (not in the sources). Section 4.5: a request selects
  one of four stores by its function-code family (discrete inputs, coils, input registers,
  holding registers). The codes are those of the Modbus protocol; an unknown code is a
  failed lookup.
\<close>

definition decode :: "int \<Rightarrow> family option" where
  "decode fx =
     (if fx = 2 then Some DiscreteInputs
      else if fx = 4 then Some InputRegisters
      else if fx \<in> {1, 5, 15} then Some Coils
      else if fx \<in> {3, 6, 16, 22, 23} then Some HoldingRegisters
      else None)"

text \<open>
  The four stores of a context, \<^verbatim>\<open>self.store\<close>: three sequential ones and the simulated
  holding registers. Each method looks the store up by \<^verbatim>\<open>self.decode(fx)\<close> and calls the
  method of the same name of that store, with the address and the count or values it was
  given; a write changes that store in place.
\<close>

record slave_context =
  di :: seq_block
  co :: seq_block
  ir :: seq_block
  hr :: datablock

definition validate :: "slave_context \<Rightarrow> int \<Rightarrow> int \<Rightarrow> int \<Rightarrow> error + bool" where
  "validate ctx fx address count =
     (case decode fx of
        None \<Rightarrow> Inl KeyError
      | Some DiscreteInputs \<Rightarrow> Inr (seq_validate (di ctx) address count)
      | Some Coils \<Rightarrow> Inr (seq_validate (co ctx) address count)
      | Some InputRegisters \<Rightarrow> Inr (seq_validate (ir ctx) address count)
      | Some HoldingRegisters \<Rightarrow> Inr (store_validate (slots (hr ctx)) address count))"

definition getValues :: "slave_context \<Rightarrow> int \<Rightarrow> int \<Rightarrow> int \<Rightarrow> error + int list" where
  "getValues ctx fx address count =
     (case decode fx of
        None \<Rightarrow> Inl KeyError
      | Some DiscreteInputs \<Rightarrow> Inr (seq_getValues (di ctx) address count)
      | Some Coils \<Rightarrow> Inr (seq_getValues (co ctx) address count)
      | Some InputRegisters \<Rightarrow> Inr (seq_getValues (ir ctx) address count)
      | Some HoldingRegisters \<Rightarrow> store_getValues (slots (hr ctx)) address count)"

definition setValues :: "slave_context \<Rightarrow> int \<Rightarrow> int \<Rightarrow> int list \<Rightarrow> error + slave_context" where
  "setValues ctx fx address vals =
     (case decode fx of
        None \<Rightarrow> Inl KeyError
      | Some DiscreteInputs \<Rightarrow> Inr (ctx\<lparr>di := seq_setValues (di ctx) address vals\<rparr>)
      | Some Coils \<Rightarrow> Inr (ctx\<lparr>co := seq_setValues (co ctx) address vals\<rparr>)
      | Some InputRegisters \<Rightarrow> Inr (ctx\<lparr>ir := seq_setValues (ir ctx) address vals\<rparr>)
      | Some HoldingRegisters \<Rightarrow>
          Inr (ctx\<lparr>hr := (hr ctx)\<lparr>slots := store_setValues (slots (hr ctx)) address vals\<rparr>\<rparr>))"

definition create :: "real \<Rightarrow> real \<Rightarrow> error + slave_context" where
  "create t0 t1 =
     (case init INITIAL_REGISTER_VALUES t0 t1 of
        Inl e \<Rightarrow> Inl e
      | Inr h \<Rightarrow>
          Inr \<lparr>di = \<lparr>seq_address = 0, seq_values = [1]\<rparr>,
               co = \<lparr>seq_address = 0, seq_values = [1]\<rparr>,
               ir = \<lparr>seq_address = 0, seq_values = [1]\<rparr>,
               hr = h\<rparr>)"


section \<open>Observations and scenarios\<close>

text \<open>
  What a client of the created device reads for a catalog address after the given ticks,
  and what it reads back after a write through the context.
\<close>

definition logical_after ::
  "real \<Rightarrow> real \<Rightarrow> (real \<times> (int \<Rightarrow> int)) list \<Rightarrow> int \<Rightarrow> error + int" where
  "logical_after t0 t1 ticks a =
     (case create t0 t1 of
        Inl e \<Rightarrow> Inl e
      | Inr c \<Rightarrow>
          (case run (hr c) ticks of
             Inl e \<Rightarrow> Inl e
           | Inr s \<Rightarrow> logical_value (slots s) a))"

definition write_then_read ::
  "real \<Rightarrow> real \<Rightarrow> int \<Rightarrow> int \<Rightarrow> int list \<Rightarrow> int \<Rightarrow> int \<Rightarrow> error + int list" where
  "write_then_read t0 t1 fx address vals a n =
     (case create t0 t1 of
        Inl e \<Rightarrow> Inl e
      | Inr c \<Rightarrow>
          (case setValues c fx address vals of
             Inl e \<Rightarrow> Inl e
           | Inr c' \<Rightarrow> getValues c' fx a n))"

text \<open>
  The sequential store of a family, if it has one, and a context given outright: its
  holding registers hold the two words of 25000 at address 50520.
\<close>

definition sequential_store :: "slave_context \<Rightarrow> family \<Rightarrow> seq_block option" where
  "sequential_store ctx f =
     (case f of DiscreteInputs \<Rightarrow> Some (di ctx) | Coils \<Rightarrow> Some (co ctx)
      | InputRegisters \<Rightarrow> Some (ir ctx) | HoldingRegisters \<Rightarrow> None)"

definition example_context :: slave_context where
  "example_context =
     \<lparr>di = \<lparr>seq_address = 0, seq_values = [1]\<rparr>,
      co = \<lparr>seq_address = 0, seq_values = [1]\<rparr>,
      ir = \<lparr>seq_address = 0, seq_values = [1]\<rparr>,
      hr = \<lparr>slots = [50520 \<mapsto> 0, 50521 \<mapsto> 25000], last_values = Map.empty,
            start_time = 0\<rparr>\<rparr>"

text \<open>A tick in which every draw is forced to the same value.\<close>

definition forced_draw :: "int \<Rightarrow> int \<Rightarrow> int" where
  "forced_draw p k = p"

text \<open>
  The hour meter is packed as a signed 32-bit integer, so a tick raises
  \<^verbatim>\<open>struct.error\<close> unless the elapsed time, in units of 36 seconds, fits: that is the
  case for some 2450 years after the start.
\<close>

definition fits :: "int \<Rightarrow> nat \<Rightarrow> bool" where
  "fits v w \<longleftrightarrow> - (2 ^ (16 * w - 1)) \<le> v \<and> v < 2 ^ (16 * w - 1)"

definition clock_ok :: "real \<Rightarrow> real \<Rightarrow> bool" where
  "clock_ok t0 now \<longleftrightarrow> fits (py_int ((now - t0) / 36)) 2"


section \<open>Notions of the proofs\<close>

text \<open>The big-endian 16-bit groups of a value, and a run of words placed at an address.\<close>

definition words_of :: "int \<Rightarrow> nat \<Rightarrow> int list" where
  "words_of v w = map (\<lambda>i. (v div 65536 ^ (w - 1 - i)) mod 65536) [0..<w]"

definition block :: "int \<Rightarrow> int list \<Rightarrow> word_slots" where
  "block addr ws =
     (\<lambda>a. if addr \<le> a \<and> a < addr + int (length ws) then Some (ws ! nat (a - addr)) else None)"

text \<open>
  The limits \<^verbatim>\<open>_update_varying_register\<close> uses for an address, the value it computes from
  the last one, and the values one address takes over a sequence of ticks.
\<close>

definition limits_of :: "int \<Rightarrow> int list" where
  "limits_of k = dict_get REGISTER_LIMITS k [0, 1000]"

definition next_value :: "int option \<Rightarrow> int \<Rightarrow> int \<Rightarrow> int" where
  "next_value prev k p =
     (case prev of
        None \<Rightarrow> py_int (real_of_int (sum_list (limits_of k)) / 2)
      | Some l \<Rightarrow>
          if p < 25 then min (limits_of k ! 1) (l + 25)
          else if p < 50 then max (limits_of k ! 0) (l - 25)
          else l)"

fun walk :: "int \<Rightarrow> int \<Rightarrow> (real \<times> (int \<Rightarrow> int)) list \<Rightarrow> int" where
  "walk k v [] = v"
| "walk k v ((now, draw) # ticks) = walk k (next_value (Some v) k (draw k)) ticks"

definition initial_value :: "int \<Rightarrow> int" where
  "initial_value k = dict_get (dict_of INITIAL_REGISTER_VALUES) k 0"

text \<open>
  The invariant of the simulation: every last value lies within the limits of its address
  (\<open>good\<close>), and every catalog address has a last value whose words are the ones in the
  store (\<open>consistent\<close>). \<open>covered\<close> holds of the word addresses that some catalog address
  occupies.
\<close>

definition within_limits :: "int \<Rightarrow> int \<Rightarrow> bool" where
  "within_limits k v \<longleftrightarrow> limits_of k ! 0 \<le> v \<and> v \<le> limits_of k ! 1"

definition good :: "datablock \<Rightarrow> bool" where
  "good s \<longleftrightarrow> (\<forall>k l. last_values s k = Some l \<longrightarrow> within_limits k l)"

definition consistent :: "datablock \<Rightarrow> bool" where
  "consistent s \<longleftrightarrow> good s \<and>
     (\<forall>k w. ALL_REGISTERS k = Some w \<longrightarrow>
        (\<exists>v. last_values s k = Some v \<and>
             (\<forall>i<w. slots s (k + int i) = Some (words_of v w ! i))))"

definition covered :: "int \<Rightarrow> bool" where
  "covered x \<longleftrightarrow> x \<in> dom ALL_REGISTERS \<or> ALL_REGISTERS (x - 1) = Some 2"

section \<open>Ranges and dictionaries\<close>

lemma py_range_mem:
  assumes "0 < stp"
  shows "x \<in> set (py_range start stop stp) \<longleftrightarrow> start \<le> x \<and> x < stop \<and> (x - start) mod stp = 0"
proof
  assume "x \<in> set (py_range start stop stp)"
  then have "\<exists>i<nat ((stop - start + stp - 1) div stp). x = start + int i * stp"
    by (auto simp: py_range_def)
  then obtain i where i: "x = start + int i * stp" "i < nat ((stop - start + stp - 1) div stp)"
    by blast
  from i(2) have "int i + 1 \<le> (stop - start + stp - 1) div stp" by linarith
  then have "(int i + 1) * stp \<le> ((stop - start + stp - 1) div stp) * stp"
    using assms by (simp add: mult_right_mono)
  also have "\<dots> \<le> stop - start + stp - 1"
    using div_mult_mod_eq [of "stop - start + stp - 1" stp]
      pos_mod_sign [OF assms, of "stop - start + stp - 1"] by linarith
  finally have "int i * stp < stop - start" by (simp add: algebra_simps)
  with i(1) assms show "start \<le> x \<and> x < stop \<and> (x - start) mod stp = 0"
    by simp
next
  assume h: "start \<le> x \<and> x < stop \<and> (x - start) mod stp = 0"
  define k where "k = (x - start) div stp"
  have xk: "x - start = k * stp" using h by (auto simp add: k_def)
  have k0: "0 \<le> k" using h assms by (simp add: k_def pos_imp_zdiv_nonneg_iff)
  have "(k + 1) * stp \<le> stop - start + stp - 1" using xk h by (simp add: algebra_simps)
  then have "k + 1 \<le> (stop - start + stp - 1) div stp"
    using zdiv_mono1 [of "(k + 1) * stp" "stop - start + stp - 1" stp] assms by simp
  then have "nat k < nat ((stop - start + stp - 1) div stp)" using k0 by linarith
  moreover have "x = start + int (nat k) * stp" using xk k0 by simp
  ultimately show "x \<in> set (py_range start stop stp)"
    unfolding py_range_def by (auto intro!: image_eqI[where x="nat k"])
qed

lemma foldl_upd_map_of:
  "foldl (\<lambda>m (k, v). m(k \<mapsto> v)) m0 kvs = m0 ++ map_of (rev kvs)"
  by (induction kvs arbitrary: m0) (auto simp: map_add_upd_left)

lemma dict_of_map_of: "dict_of kvs = map_of (rev kvs)"
  by (simp add: dict_of_def foldl_upd_map_of)

lemma dict_of_append: "dict_of (xs @ ys) = dict_of xs ++ dict_of ys"
  by (simp add: dict_of_map_of)

lemma dict_of_snoc: "dict_of (kvs @ [(k, v)]) = (dict_of kvs)(k \<mapsto> v)"
  by (simp add: dict_of_def)

lemma dict_of_const:
  "dict_of (map (\<lambda>k. (k, c)) ks) a = (if a \<in> set ks then Some c else None)"
  by (induction ks rule: rev_induct) (auto simp: dict_of_map_of)

lemma dict_of_map_values:
  "dict_of (map (\<lambda>(a, l). (a, f l)) kvs) k = map_option f (dict_of kvs k)"
proof (induction kvs rule: rev_induct)
  case Nil
  show ?case by (simp add: dict_of_def)
next
  case (snoc x kvs)
  obtain a l where x: "x = (a, l)" by (cases x)
  show ?case using snoc by (simp add: x dict_of_snoc)
qed

lemma dom_dict_of: "dom (dict_of kvs) = fst ` set kvs"
  by (simp add: dict_of_map_of dom_map_of_conv_image_fst)

lemma set_dict_keys: "set (dict_keys kvs) = fst ` set kvs"
  by (simp add: dict_keys_def)

lemma distinct_dict_keys: "distinct (dict_keys kvs)"
  by (simp add: dict_keys_def)

lemma upto_as_upt: "[k..k + int n - 1] = map (\<lambda>i. k + int i) [0..<n]"
proof (induction n)
  case 0
  show ?case by simp
next
  case (Suc n)
  have "[k..k + int (Suc n) - 1] = [k..k + int n - 1] @ [k + int n]"
    using upto_rec2 [of k "k + int n"] by simp
  with Suc show ?case by simp
qed


section \<open>The catalog spelled out\<close>

text \<open>
  The merged catalog as a function of the address: three ranges of even addresses of two
  words and four ranges of single words.
\<close>

lemma ALL_REGISTERS_eq:
  "ALL_REGISTERS a =
     (if 51536 \<le> a \<and> a \<le> 51858 then Some 1
      else if 51456 \<le> a \<and> a \<le> 51463 then Some 1
      else if 51280 \<le> a \<and> a \<le> 51313 then Some 1
      else if 51088 \<le> a \<and> a \<le> 51093 then Some 1
      else if 51024 \<le> a \<and> a \<le> 51086 \<and> even a then Some 2
      else if 50768 \<le> a \<and> a \<le> 50816 \<and> even a then Some 2
      else if 50512 \<le> a \<and> a \<le> 50572 \<and> even a then Some 2
      else None)"
  unfolding ALL_REGISTERS_def ALL_items_def TABLES_def TABLE_1_def TABLE_2_def TABLE_3_def
    TABLE_4_def TABLE_5_def TABLE_6_def
  apply (simp add: dict_of_append dict_of_const map_add_def py_range_mem del: map_append)
  apply presburger
  done

lemma width_cases: "ALL_REGISTERS a = Some w \<Longrightarrow> w = 1 \<or> w = 2"
  by (auto simp: ALL_REGISTERS_eq split: if_splits)

lemma width_2_char:
  "ALL_REGISTERS a = Some 2 \<longleftrightarrow>
     even a \<and> (50512 \<le> a \<and> a \<le> 50572 \<or> 50768 \<le> a \<and> a \<le> 50816 \<or> 51024 \<le> a \<and> a \<le> 51086)"
  by (auto simp: ALL_REGISTERS_eq)

lemma width_2_succ_free: "ALL_REGISTERS a = Some 2 \<Longrightarrow> ALL_REGISTERS (a + 1) = None"
  unfolding width_2_char by (auto simp: ALL_REGISTERS_eq)

text \<open>
  No two catalog addresses share a word slot: the word after a register of two words is
  no catalog address.
\<close>

lemma no_overlap_less:
  assumes "ALL_REGISTERS a = Some wa" "ALL_REGISTERS b = Some wb"
    and "a \<le> x" "x < a + int wa" "b \<le> x" "x < b + int wb" "a < b"
  shows False
proof -
  have "wa = 1 \<or> wa = 2" using assms(1) by (rule width_cases)
  with assms have "wa = 2" "b = a + 1" by auto
  with assms(1,2) width_2_succ_free [of a] show False by simp
qed

lemma no_overlap:
  assumes "ALL_REGISTERS a = Some wa" "ALL_REGISTERS b = Some wb"
    and "a \<le> x" "x < a + int wa" "b \<le> x" "x < b + int wb"
  shows "a = b"
  using no_overlap_less [OF assms(1,2,3,4,5,6)] no_overlap_less [OF assms(2,1,5,6,3,4)]
  by (cases "a < b"; cases "b < a") auto

lemma HOUR_METER_width: "ALL_REGISTERS HOUR_METER = Some 2"
  by (simp add: ALL_REGISTERS_eq HOUR_METER_def)

lemma REGISTER_LIMITS_cases:
  assumes "REGISTER_LIMITS a = Some l"
  shows "(l = [0, 50000] \<or> l = [0, 20000] \<or> l = [0, 1000] \<or> l = [-1000, 1000] \<or> l = [3000, 7000])
         \<and> ALL_REGISTERS a = Some 2"
  using assms unfolding REGISTER_LIMITS_def REGISTER_LIMITS_items_def dict_of_def
  by (simp add: ALL_REGISTERS_eq split: if_splits)

lemma limits_50520: "REGISTER_LIMITS 50520 = Some [0, 50000]"
  by (simp add: REGISTER_LIMITS_def REGISTER_LIMITS_items_def dict_of_def)

lemma limits_50768: "REGISTER_LIMITS 50768 = None"
  by (simp add: REGISTER_LIMITS_def REGISTER_LIMITS_items_def dict_of_def)

lemma limits_HOUR_METER: "REGISTER_LIMITS HOUR_METER = None"
  by (simp add: REGISTER_LIMITS_def REGISTER_LIMITS_items_def dict_of_def HOUR_METER_def)

lemma keys_ALL: "set (dict_keys ALL_items) = dom ALL_REGISTERS"
  by (simp add: set_dict_keys ALL_REGISTERS_def dom_dict_of)

lemma dom_REGISTER_LIMITS: "fst ` set REGISTER_LIMITS_items \<subseteq> dom ALL_REGISTERS"
proof
  fix k assume "k \<in> fst ` set REGISTER_LIMITS_items"
  then have "k \<in> dom REGISTER_LIMITS" by (simp add: REGISTER_LIMITS_def dom_dict_of)
  then obtain l where "REGISTER_LIMITS k = Some l" by blast
  from REGISTER_LIMITS_cases [OF this] show "k \<in> dom ALL_REGISTERS" by blast
qed

lemma keys_INITIAL: "set (dict_keys INITIAL_REGISTER_VALUES) = dom ALL_REGISTERS"
proof -
  have "set (dict_keys INITIAL_REGISTER_VALUES)
          = set (dict_keys ALL_items) \<union> fst ` set REGISTER_LIMITS_items"
    by (force simp: set_dict_keys INITIAL_REGISTER_VALUES_def image_Un image_image)
  then show ?thesis using keys_ALL dom_REGISTER_LIMITS by auto
qed

lemma covered_iff:
  "covered x \<longleftrightarrow> (\<exists>k w. ALL_REGISTERS k = Some w \<and> k \<le> x \<and> x < k + int w)"
proof
  assume "covered x"
  then consider w where "ALL_REGISTERS x = Some w" | "ALL_REGISTERS (x - 1) = Some 2"
    by (auto simp: covered_def)
  then show "\<exists>k w. ALL_REGISTERS k = Some w \<and> k \<le> x \<and> x < k + int w"
  proof cases
    case 1
    then have "0 < w" using width_cases [OF 1] by auto
    with 1 show ?thesis by (intro exI [of _ x] exI [of _ w]) simp
  next
    case 2
    then show ?thesis by (intro exI [of _ "x - 1"] exI [of _ 2]) simp
  qed
next
  assume "\<exists>k w. ALL_REGISTERS k = Some w \<and> k \<le> x \<and> x < k + int w"
  then obtain k w where kw: "ALL_REGISTERS k = Some w" "k \<le> x" "x < k + int w" by blast
  from width_cases [OF kw(1)] have "x = k \<or> (w = 2 \<and> x - 1 = k)"
    using kw(2,3) by auto
  with kw(1) show "covered x" by (auto simp: covered_def)
qed

lemma limits_of_cases:
  assumes "ALL_REGISTERS k = Some w"
  shows "limits_of k = [0, 1000] \<or> w = 2 \<and> (limits_of k = [0, 50000] \<or> limits_of k = [0, 20000]
           \<or> limits_of k = [-1000, 1000] \<or> limits_of k = [3000, 7000])"
proof (cases "REGISTER_LIMITS k")
  case None
  then show ?thesis by (simp add: limits_of_def dict_get_def)
next
  case (Some l)
  from REGISTER_LIMITS_cases [OF Some] assms Some show ?thesis
    by (auto simp: limits_of_def dict_get_def)
qed


section \<open>Packing and unpacking\<close>

lemma upt_2: "[0..<2] = [0, Suc 0]"
  by (simp add: upt_conv_Cons numeral_2_eq_2)

lemma upt_4: "[0..<4] = [0, 1, 2, 3]"
  by code_simp

lemma upt_8: "[0..<8] = [0, 1, 2, 3, 4, 5, 6, 7]"
  by code_simp

text \<open>
  Two consecutive bytes of the big-endian byte string make one 16-bit group of the value,
  so \<^verbatim>\<open>_pack_value\<close> returns the 16-bit groups of the value, highest first.
\<close>

lemma word_of_bytes:
  "((v div (m * 256)) mod 256) * 256 + (v div m) mod 256 = (v div m) mod (65536::int)"
proof -
  have "v div (m * 256) = (v div m) div 256" by (simp add: zdiv_zmult2_eq)
  moreover have "(v div m) mod (256 * 256) = 256 * ((v div m) div 256 mod 256) + (v div m) mod 256"
    by (rule zmod_zmult2_eq) simp
  ultimately show ?thesis by simp
qed

lemma struct_pack_h:
  "fits v 1 \<Longrightarrow> struct_pack CHR ''h'' v = Inr [v div 256 mod 256, v mod 256]"
  by (simp add: struct_pack_def struct_size_def fits_def upt_2)

lemma struct_pack_i:
  "fits v 2 \<Longrightarrow> struct_pack CHR ''i'' v =
     Inr [v div 16777216 mod 256, v div 65536 mod 256, v div 256 mod 256, v mod 256]"
  by (simp add: struct_pack_def struct_size_def fits_def upt_4)

lemma struct_pack_q:
  "fits v 4 \<Longrightarrow> struct_pack CHR ''q'' v =
     Inr [v div 72057594037927936 mod 256, v div 281474976710656 mod 256,
          v div 1099511627776 mod 256, v div 4294967296 mod 256,
          v div 16777216 mod 256, v div 65536 mod 256, v div 256 mod 256, v mod 256]"
  by (simp add: struct_pack_def struct_size_def fits_def upt_8)

lemma pack_value_1: "fits v 1 \<Longrightarrow> pack_value v 1 = Inr (words_of v 1)"
  using word_of_bytes [of v 1]
  by (simp add: pack_value_def REGISTER_TYPES_def struct_pack_h struct_unpack_H_def words_of_def)

lemma pack_value_2: "fits v 2 \<Longrightarrow> pack_value v 2 = Inr (words_of v 2)"
  using word_of_bytes [of v 1] word_of_bytes [of v 65536]
  by (simp add: pack_value_def REGISTER_TYPES_def struct_pack_i struct_unpack_H_def words_of_def upt_2)

lemma pack_value_4:
  assumes "fits v 4"
  shows "pack_value v 4 = Inr (words_of v 4)"
proof -
  have w0: "v div 72057594037927936 mod 256 * 256 + v div 281474976710656 mod 256
            = v div 281474976710656 mod 65536"
    using word_of_bytes [of v 281474976710656] by simp
  have w1: "v div 1099511627776 mod 256 * 256 + v div 4294967296 mod 256
            = v div 4294967296 mod 65536"
    using word_of_bytes [of v 4294967296] by simp
  have w2: "v div 16777216 mod 256 * 256 + v div 65536 mod 256 = v div 65536 mod 65536"
    using word_of_bytes [of v 65536] by simp
  have w3: "v div 256 mod 256 * 256 + v mod 256 = v mod 65536"
    using word_of_bytes [of v 1] by simp
  show ?thesis
    by (simp add: pack_value_def REGISTER_TYPES_def struct_pack_q [OF assms]
        struct_unpack_H_def words_of_def upt_4 w0 w1 w2 w3)
qed

lemma pack_value_words_of:
  assumes "w = 1 \<or> w = 2 \<or> w = 4" "fits v w"
  shows "pack_value v w = Inr (words_of v w)"
  using assms pack_value_1 pack_value_2 pack_value_4 by blast

lemma length_words_of: "length (words_of v w) = w"
  by (simp add: words_of_def)

text \<open>
  Reading the words back gives the value modulo \<open>2 ^ (16 * w)\<close>, and the sign rule of
  the decoder recovers a value that fits.
\<close>

lemma twos_complement_decode:
  assumes "k = 2 * m" "- m \<le> v" "v < m"
  shows "(if m \<le> v mod k then Inr (v mod k - k) else Inr (v mod k)) = (Inr (v::int) :: error + int)"
proof (cases "0 \<le> v")
  case True
  then have "v mod k = v" using assms by (simp add: mod_pos_pos_trivial)
  then show ?thesis using assms by simp
next
  case False
  have "(v + k) mod k = v + k"
    using False assms by (intro mod_pos_pos_trivial) auto
  then have "v mod k = v + k" by simp
  then show ?thesis using False assms by simp
qed

lemma value_of_words_1:
  "foldl (\<lambda>acc x. acc * 65536 + x) 0 (words_of v (Suc 0)) = v mod 65536"
  by (simp add: words_of_def)

lemma value_of_words_2: "foldl (\<lambda>acc x. acc * 65536 + x) 0 (words_of v 2) = v mod 4294967296"
proof -
  have "v mod (65536 * 65536) = 65536 * (v div 65536 mod 65536) + v mod 65536"
    by (rule zmod_zmult2_eq) simp
  then show ?thesis by (simp add: words_of_def upt_2)
qed

lemma value_of_words_4:
  "foldl (\<lambda>acc x. acc * 65536 + x) 0 (words_of v 4) = v mod 18446744073709551616"
proof -
  have a: "v mod (65536 * 65536) = 65536 * (v div 65536 mod 65536) + v mod 65536"
    by (rule zmod_zmult2_eq) simp
  have b: "v mod (4294967296 * 65536) = 4294967296 * (v div 4294967296 mod 65536) + v mod 4294967296"
    by (rule zmod_zmult2_eq) simp
  have c: "v mod (281474976710656 * 65536)
             = 281474976710656 * (v div 281474976710656 mod 65536) + v mod 281474976710656"
    by (rule zmod_zmult2_eq) simp
  from a b c show ?thesis by (simp add: words_of_def upt_4)
qed

lemma words_of_range: "list_all (\<lambda>x. 0 \<le> x \<and> x < 65536) (words_of v w)"
  by (simp add: words_of_def list_all_iff)

lemma unpack_words_of:
  assumes "w = 1 \<or> w = 2 \<or> w = 4" "fits v w"
  shows "unpack_value (words_of v w) = Inr v"
proof -
  consider "w = 1" | "w = 2" | "w = 4" using assms(1) by blast
  then show ?thesis
  proof cases
    case 1
    with assms(2) have "- 32768 \<le> v" "v < 32768" by (simp_all add: fits_def)
    from twos_complement_decode [of 65536 32768 v, OF _ this] 1 show ?thesis
      by (simp add: unpack_value_def length_words_of words_of_range value_of_words_1 Let_def
          split: if_splits)
  next
    case 2
    with assms(2) have "- 2147483648 \<le> v" "v < 2147483648" by (simp_all add: fits_def)
    from twos_complement_decode [of 4294967296 2147483648 v, OF _ this] 2 show ?thesis
      by (simp add: unpack_value_def length_words_of words_of_range value_of_words_2 Let_def
          split: if_splits)
  next
    case 3
    with assms(2) have "- 9223372036854775808 \<le> v" "v < 9223372036854775808"
      by (simp_all add: fits_def)
    from twos_complement_decode [of 18446744073709551616 9223372036854775808 v, OF _ this] 3
    show ?thesis
      by (simp add: unpack_value_def length_words_of words_of_range value_of_words_4 Let_def
          split: if_splits)
  qed
qed


section \<open>Expanded registers in the store\<close>

lemma dict_of_enumerate:
  "dict_of (map (\<lambda>(i, x). (addr + int i, x)) (enumerate 0 ws)) = block addr ws"
proof (induction ws rule: rev_induct)
  case Nil
  show ?case by (simp add: dict_of_def block_def fun_eq_iff)
next
  case (snoc x ws)
  have "enumerate 0 (ws @ [x]) = enumerate 0 ws @ [(length ws, x)]"
    by (simp add: enumerate_append_eq)
  then have "dict_of (map (\<lambda>(i, x). (addr + int i, x)) (enumerate 0 (ws @ [x])))
             = (block addr ws)(addr + int (length ws) \<mapsto> x)"
    using snoc.IH by (simp add: dict_of_snoc)
  also have "\<dots> = block addr (ws @ [x])"
    by (auto simp: block_def fun_eq_iff nth_append nat_less_iff)
  finally show ?case .
qed

lemma block_inside: "i < length ws \<Longrightarrow> block a ws (a + int i) = Some (ws ! i)"
  by (simp add: block_def)

lemma block_outside: "\<not> (a \<le> x \<and> x < a + int (length ws)) \<Longrightarrow> block a ws x = None"
  by (simp add: block_def)

lemma dom_block: "dom (block a ws) = {a..<a + int (length ws)}"
  by (auto simp: block_def dom_def)

lemma expand_register_value_ok:
  assumes "ALL_REGISTERS a = Some w" "fits v w"
  shows "expand_register_value a v = Inr (block a (words_of v w))"
proof -
  have "w = 1 \<or> w = 2 \<or> w = 4" using width_cases [OF assms(1)] by blast
  then have "pack_value v w = Inr (words_of v w)" using assms(2) by (rule pack_value_words_of)
  then show ?thesis by (simp add: expand_register_value_def assms(1) dict_of_enumerate)
qed

lemma store_getValues_words:
  assumes "length ws = w" "\<forall>i<w. sl (k + int i) = Some (ws ! i)"
  shows "store_getValues sl k (int w) = Inr ws"
proof -
  have "list_all (\<lambda>a. sl a \<noteq> None) [k..k + int w - 1]"
    using assms(2) by (simp add: upto_as_upt list_all_iff)
  moreover have "map (\<lambda>a. the (sl a)) [k..k + int w - 1] = ws"
    using assms by (intro nth_equalityI) (simp_all add: upto_as_upt)
  ultimately show ?thesis by (simp add: store_getValues_def)
qed

lemma logical_value_of_words:
  assumes "ALL_REGISTERS k = Some w" "fits v w"
    and "\<forall>i<w. sl (k + int i) = Some (words_of v w ! i)"
  shows "logical_value sl k = Inr v"
proof -
  have "store_getValues sl k (int w) = Inr (words_of v w)"
    using assms(3) by (intro store_getValues_words) (simp_all add: length_words_of)
  moreover have "w = 1 \<or> w = 2 \<or> w = 4" using width_cases [OF assms(1)] by blast
  then have "unpack_value (words_of v w) = Inr v" using assms(2) by (rule unpack_words_of)
  ultimately show ?thesis by (simp add: logical_value_def assms(1))
qed


section \<open>The initial store\<close>

lemma INITIAL_lookup:
  "dict_of INITIAL_REGISTER_VALUES k =
     (case REGISTER_LIMITS k of
        Some l \<Rightarrow> Some (sum_list l div 2)
      | None \<Rightarrow> if ALL_REGISTERS k \<noteq> None then Some 0 else None)"
proof -
  have "dict_of (map (\<lambda>k. (k, 0::int)) (dict_keys ALL_items)) k
          = (if ALL_REGISTERS k \<noteq> None then Some 0 else None)"
    using keys_ALL by (auto simp: dict_of_const)
  moreover have "dict_of (map (\<lambda>(addr, limits). (addr, sum_list limits div 2)) REGISTER_LIMITS_items) k
          = map_option (\<lambda>l. sum_list l div 2) (REGISTER_LIMITS k)"
    by (simp add: dict_of_map_values REGISTER_LIMITS_def)
  ultimately show ?thesis
    by (simp add: INITIAL_REGISTER_VALUES_def dict_of_append map_add_def split: option.splits)
qed

lemma initial_value_eq:
  "initial_value k = (case REGISTER_LIMITS k of Some l \<Rightarrow> sum_list l div 2 | None \<Rightarrow> 0)"
  by (simp add: initial_value_def dict_get_def INITIAL_lookup split: option.splits)

lemma initial_value_fits:
  assumes "ALL_REGISTERS k = Some w"
  shows "fits (initial_value k) w"
proof (cases "REGISTER_LIMITS k")
  case None
  then show ?thesis using width_cases [OF assms] by (auto simp: initial_value_eq fits_def)
next
  case (Some l)
  from REGISTER_LIMITS_cases [OF Some] assms Some show ?thesis
    by (auto simp: initial_value_eq fits_def)
qed

text \<open>
  The loop of \<^verbatim>\<open>__init__\<close> that expands every catalog address into the new store.
\<close>

lemma for_each_expand:
  assumes "distinct ks" "\<forall>k\<in>set ks. ALL_REGISTERS k \<noteq> None"
    and "\<forall>k w. ALL_REGISTERS k = Some w \<longrightarrow> fits (val k) w"
  shows "\<exists>m. for_each (\<lambda>expanded_values addr.
                case expand_register_value addr (val addr) of
                  Inl e \<Rightarrow> Inl e
                | Inr d \<Rightarrow> Inr (expanded_values ++ d)) m0 ks = Inr m
      \<and> (\<forall>k w i. k \<in> set ks \<longrightarrow> ALL_REGISTERS k = Some w \<longrightarrow> i < w \<longrightarrow>
             m (k + int i) = Some (words_of (val k) w ! i))
      \<and> (\<forall>x. (\<forall>k w. k \<in> set ks \<longrightarrow> ALL_REGISTERS k = Some w \<longrightarrow> \<not> (k \<le> x \<and> x < k + int w))
             \<longrightarrow> m x = m0 x)"
  using assms(1,2)
proof (induction ks arbitrary: m0)
  case Nil
  then show ?case by simp
next
  case (Cons k ks)
  from Cons.prems obtain w where w: "ALL_REGISTERS k = Some w" by auto
  define m1 where "m1 = m0 ++ block k (words_of (val k) w)"
  have ex: "expand_register_value k (val k) = Inr (block k (words_of (val k) w))"
    using w assms(3) by (intro expand_register_value_ok) auto
  have k_notin: "k \<notin> set ks" and dist: "distinct ks" using Cons.prems(1) by auto
  have cat: "\<forall>k\<in>set ks. ALL_REGISTERS k \<noteq> None" using Cons.prems(2) by simp
  from Cons.IH [OF dist cat, of m1] obtain m where
    run: "for_each (\<lambda>expanded_values addr.
                case expand_register_value addr (val addr) of
                  Inl e \<Rightarrow> Inl e
                | Inr d \<Rightarrow> Inr (expanded_values ++ d)) m1 ks = Inr m"
    and in': "\<And>j v i. j \<in> set ks \<Longrightarrow> ALL_REGISTERS j = Some v \<Longrightarrow> i < v \<Longrightarrow>
             m (j + int i) = Some (words_of (val j) v ! i)"
    and out': "\<And>x. (\<forall>j v. j \<in> set ks \<longrightarrow> ALL_REGISTERS j = Some v \<longrightarrow> \<not> (j \<le> x \<and> x < j + int v))
             \<Longrightarrow> m x = m1 x"
    by blast
  have c1: "for_each (\<lambda>expanded_values addr.
                case expand_register_value addr (val addr) of
                  Inl e \<Rightarrow> Inl e
                | Inr d \<Rightarrow> Inr (expanded_values ++ d)) m0 (k # ks) = Inr m"
    using ex run by (simp add: m1_def)
  have c2: "\<forall>j v i. j \<in> set (k # ks) \<longrightarrow> ALL_REGISTERS j = Some v \<longrightarrow> i < v \<longrightarrow>
             m (j + int i) = Some (words_of (val j) v ! i)"
  proof (intro allI impI)
    fix j v i
    assume j: "j \<in> set (k # ks)" and v: "ALL_REGISTERS j = Some v" and i: "i < v"
    show "m (j + int i) = Some (words_of (val j) v ! i)"
    proof (cases "j = k")
      case True
      have "\<forall>j' v'. j' \<in> set ks \<longrightarrow> ALL_REGISTERS j' = Some v' \<longrightarrow>
              \<not> (j' \<le> k + int i \<and> k + int i < j' + int v')"
      proof (intro allI impI notI)
        fix j' v'
        assume a: "j' \<in> set ks" "ALL_REGISTERS j' = Some v'"
          "j' \<le> k + int i \<and> k + int i < j' + int v'"
        have "k = j'"
          using no_overlap [OF w a(2), of "k + int i"] a(3) i v True w by simp
        with a(1) k_notin show False by simp
      qed
      then have "m (k + int i) = m1 (k + int i)" by (rule out')
      also have "\<dots> = Some (words_of (val k) w ! i)"
        using i v True w by (simp add: m1_def block_inside length_words_of)
      finally show ?thesis using True v w by simp
    next
      case False
      with j have "j \<in> set ks" by simp
      from in' [OF this v i] show ?thesis .
    qed
  qed
  have c3: "\<forall>x. (\<forall>j v. j \<in> set (k # ks) \<longrightarrow> ALL_REGISTERS j = Some v \<longrightarrow>
                   \<not> (j \<le> x \<and> x < j + int v))
             \<longrightarrow> m x = m0 x"
  proof (intro allI impI)
    fix x
    assume a: "\<forall>j v. j \<in> set (k # ks) \<longrightarrow> ALL_REGISTERS j = Some v \<longrightarrow> \<not> (j \<le> x \<and> x < j + int v)"
    then have "m x = m1 x" by (intro out') simp
    moreover have "\<not> (k \<le> x \<and> x < k + int w)" using a w by simp
    then have "block k (words_of (val k) w) x = None"
      by (intro block_outside) (simp add: length_words_of)
    then have "m1 x = m0 x" by (simp add: m1_def map_add_def)
    ultimately show "m x = m0 x" by simp
  qed
  from c1 c2 c3 show ?case by blast
qed

lemma init_store_ok:
  "\<exists>m. init_store INITIAL_REGISTER_VALUES = Inr m
      \<and> (\<forall>k w i. ALL_REGISTERS k = Some w \<longrightarrow> i < w \<longrightarrow>
             m (k + int i) = Some (words_of (initial_value k) w ! i))
      \<and> (\<forall>x. \<not> covered x \<longrightarrow> m x = None)"
proof -
  have asrt: "list_all (\<lambda>k. ALL_REGISTERS k \<noteq> None) (dict_keys INITIAL_REGISTER_VALUES)"
    using keys_INITIAL by (auto simp: list_all_iff)
  have cat: "\<forall>k\<in>set (dict_keys ALL_items). ALL_REGISTERS k \<noteq> None"
    using keys_ALL by auto
  have fit: "\<forall>k w. ALL_REGISTERS k = Some w \<longrightarrow> fits (initial_value k) w"
    using initial_value_fits by blast
  from for_each_expand [OF distinct_dict_keys cat fit, of Map.empty] obtain m where
    m: "for_each (\<lambda>expanded_values addr.
                case expand_register_value addr (initial_value addr) of
                  Inl e \<Rightarrow> Inl e
                | Inr d \<Rightarrow> Inr (expanded_values ++ d)) Map.empty (dict_keys ALL_items) = Inr m"
      "\<forall>k w i. k \<in> set (dict_keys ALL_items) \<longrightarrow> ALL_REGISTERS k = Some w \<longrightarrow> i < w \<longrightarrow>
             m (k + int i) = Some (words_of (initial_value k) w ! i)"
      "\<forall>x. (\<forall>k w. k \<in> set (dict_keys ALL_items) \<longrightarrow> ALL_REGISTERS k = Some w \<longrightarrow>
                 \<not> (k \<le> x \<and> x < k + int w)) \<longrightarrow> m x = Map.empty x"
    by blast
  have "init_store INITIAL_REGISTER_VALUES = Inr m"
    using asrt m(1) by (simp add: init_store_def initial_value_def)
  moreover have "\<forall>k w i. ALL_REGISTERS k = Some w \<longrightarrow> i < w \<longrightarrow>
             m (k + int i) = Some (words_of (initial_value k) w ! i)"
    using m(2) keys_ALL by blast
  moreover have "\<forall>x. \<not> covered x \<longrightarrow> m x = None"
    using m(3) by (auto simp: covered_iff)
  ultimately show ?thesis by blast
qed

lemma initial_logical:
  assumes "init_store INITIAL_REGISTER_VALUES = Inr m" "ALL_REGISTERS a = Some w"
  shows "logical_value m a = Inr (initial_value a)"
    "store_getValues m a (int w) = pack_value (initial_value a) w"
proof -
  from init_store_ok assms(1) have
    m: "\<forall>k w i. ALL_REGISTERS k = Some w \<longrightarrow> i < w \<longrightarrow>
             m (k + int i) = Some (words_of (initial_value k) w ! i)"
    by auto
  have f: "fits (initial_value a) w" using assms(2) by (rule initial_value_fits)
  have ws: "\<forall>i<w. m (a + int i) = Some (words_of (initial_value a) w ! i)"
    using m assms(2) by blast
  show "logical_value m a = Inr (initial_value a)"
    using assms(2) f ws by (rule logical_value_of_words)
  have "w = 1 \<or> w = 2 \<or> w = 4" using width_cases [OF assms(2)] by blast
  then have "pack_value (initial_value a) w = Inr (words_of (initial_value a) w)"
    using f by (rule pack_value_words_of)
  moreover have "store_getValues m a (int w) = Inr (words_of (initial_value a) w)"
    using ws by (intro store_getValues_words) (simp_all add: length_words_of)
  ultimately show "store_getValues m a (int w) = pack_value (initial_value a) w" by simp
qed


section \<open>One tick and many\<close>

lemma within_limits_fits:
  assumes "ALL_REGISTERS k = Some w" "within_limits k v"
  shows "fits v w"
  using limits_of_cases [OF assms(1)] width_cases [OF assms(1)] assms(2)
  by (auto simp: within_limits_def fits_def)

lemma next_value_within:
  assumes "ALL_REGISTERS k = Some w" "\<forall>l. prev = Some l \<longrightarrow> within_limits k l"
  shows "within_limits k (next_value prev k p)"
  using limits_of_cases [OF assms(1)] assms(2)
  by (cases prev) (auto simp: within_limits_def next_value_def py_int_def)

lemma update_varying_register_ok:
  assumes "ALL_REGISTERS k = Some w" "\<forall>l. last_values s k = Some l \<longrightarrow> within_limits k l"
  shows "update_varying_register s k p =
           Inr (s\<lparr>last_values := (last_values s)(k \<mapsto> next_value (last_values s k) k p),
                  slots := slots s ++ block k (words_of (next_value (last_values s k) k p) w)\<rparr>)"
proof -
  have "within_limits k (next_value (last_values s k) k p)"
    using assms by (intro next_value_within)
  then have "fits (next_value (last_values s k) k p) w"
    using assms(1) by (intro within_limits_fits)
  from expand_register_value_ok [OF assms(1) this] show ?thesis
    unfolding update_varying_register_def next_value_def limits_of_def store_setValues_dict_def
    by (simp add: Let_def)
qed

text \<open>
  The loop of \<^verbatim>\<open>_step\<close> over any list of distinct catalog addresses, from a state whose
  last values lie within their limits: it does not fail, every address of the list gets
  its next value, whose words are in the store afterwards, and nothing else changes. The
  result is described address by address, so it is the same for every order in which the
  dictionary may be iterated.
\<close>

lemma for_each_update:
  assumes "distinct ks" "\<forall>k\<in>set ks. ALL_REGISTERS k \<noteq> None" "good s"
  shows "\<exists>s'. for_each (\<lambda>s' k. update_varying_register s' k (draw k)) s ks = Inr s'
      \<and> good s' \<and> start_time s' = start_time s
      \<and> (\<forall>k. last_values s' k =
             (if k \<in> set ks then Some (next_value (last_values s k) k (draw k))
              else last_values s k))
      \<and> (\<forall>k w i. k \<in> set ks \<longrightarrow> ALL_REGISTERS k = Some w \<longrightarrow> i < w \<longrightarrow>
             slots s' (k + int i)
               = Some (words_of (next_value (last_values s k) k (draw k)) w ! i))
      \<and> (\<forall>x. (\<forall>k w. k \<in> set ks \<longrightarrow> ALL_REGISTERS k = Some w \<longrightarrow> \<not> (k \<le> x \<and> x < k + int w))
             \<longrightarrow> slots s' x = slots s x)"
  using assms
proof (induction ks arbitrary: s)
  case Nil
  then show ?case by simp
next
  case (Cons k ks)
  from Cons.prems obtain w where w: "ALL_REGISTERS k = Some w" by auto
  define nv where "nv = next_value (last_values s k) k (draw k)"
  define s1 where "s1 = s\<lparr>last_values := (last_values s)(k \<mapsto> nv),
                          slots := slots s ++ block k (words_of nv w)\<rparr>"
  have prev_in: "\<forall>l. last_values s k = Some l \<longrightarrow> within_limits k l"
    using Cons.prems(3) by (simp add: good_def)
  have upd: "update_varying_register s k (draw k) = Inr s1"
    using update_varying_register_ok [OF w prev_in] by (simp add: s1_def nv_def)
  have nv_in: "within_limits k nv"
    unfolding nv_def using w Cons.prems(3) by (intro next_value_within) (auto simp: good_def)
  have good1: "good s1"
    using Cons.prems(3) nv_in by (auto simp: good_def s1_def)
  have k_notin: "k \<notin> set ks" and dist: "distinct ks" using Cons.prems(1) by auto
  have cat: "\<forall>k\<in>set ks. ALL_REGISTERS k \<noteq> None" using Cons.prems(2) by simp
  from Cons.IH [OF dist cat good1] obtain s' where
    run: "for_each (\<lambda>s' k. update_varying_register s' k (draw k)) s1 ks = Inr s'"
    and good': "good s'" and time': "start_time s' = start_time s1"
    and lv': "\<And>j. last_values s' j =
             (if j \<in> set ks then Some (next_value (last_values s1 j) j (draw j))
              else last_values s1 j)"
    and in': "\<And>j v i. j \<in> set ks \<Longrightarrow> ALL_REGISTERS j = Some v \<Longrightarrow> i < v \<Longrightarrow>
             slots s' (j + int i)
               = Some (words_of (next_value (last_values s1 j) j (draw j)) v ! i)"
    and out': "\<And>x. (\<forall>j v. j \<in> set ks \<longrightarrow> ALL_REGISTERS j = Some v \<longrightarrow> \<not> (j \<le> x \<and> x < j + int v))
             \<Longrightarrow> slots s' x = slots s1 x"
    by blast
  have lv1: "\<And>j. j \<noteq> k \<Longrightarrow> last_values s1 j = last_values s j"
    by (simp add: s1_def)
  have lv1k: "last_values s1 k = Some nv" by (simp add: s1_def)
  have c1: "for_each (\<lambda>s' k. update_varying_register s' k (draw k)) s (k # ks) = Inr s'"
    using upd run by simp
  have c3: "start_time s' = start_time s" using time' by (simp add: s1_def)
  have c4: "\<forall>j. last_values s' j =
             (if j \<in> set (k # ks) then Some (next_value (last_values s j) j (draw j))
              else last_values s j)"
  proof (intro allI)
    fix j
    show "last_values s' j =
             (if j \<in> set (k # ks) then Some (next_value (last_values s j) j (draw j))
              else last_values s j)"
    proof (cases "j = k")
      case True
      then show ?thesis using lv' [of k] lv1k k_notin by (simp add: nv_def)
    next
      case False
      then show ?thesis using lv' [of j] lv1 [OF False] by simp
    qed
  qed
  have c5: "\<forall>j v i. j \<in> set (k # ks) \<longrightarrow> ALL_REGISTERS j = Some v \<longrightarrow> i < v \<longrightarrow>
             slots s' (j + int i)
               = Some (words_of (next_value (last_values s j) j (draw j)) v ! i)"
  proof (intro allI impI)
    fix j v i
    assume j: "j \<in> set (k # ks)" and v: "ALL_REGISTERS j = Some v" and i: "i < v"
    show "slots s' (j + int i) = Some (words_of (next_value (last_values s j) j (draw j)) v ! i)"
    proof (cases "j = k")
      case True
      have "\<forall>j' v'. j' \<in> set ks \<longrightarrow> ALL_REGISTERS j' = Some v' \<longrightarrow>
              \<not> (j' \<le> k + int i \<and> k + int i < j' + int v')"
      proof (intro allI impI notI)
        fix j' v'
        assume a: "j' \<in> set ks" "ALL_REGISTERS j' = Some v'"
          "j' \<le> k + int i \<and> k + int i < j' + int v'"
        have "k = j'"
          using no_overlap [OF w a(2), of "k + int i"] a(3) i v True w by simp
        with a(1) k_notin show False by simp
      qed
      then have "slots s' (k + int i) = slots s1 (k + int i)" by (rule out')
      also have "\<dots> = Some (words_of nv w ! i)"
        using i v True w by (simp add: s1_def block_inside length_words_of)
      finally show ?thesis using True v w by (simp add: nv_def)
    next
      case False
      with j have "j \<in> set ks" by simp
      from in' [OF this v i] lv1 [OF False] show ?thesis by simp
    qed
  qed
  have c6: "\<forall>x. (\<forall>j v. j \<in> set (k # ks) \<longrightarrow> ALL_REGISTERS j = Some v \<longrightarrow>
                   \<not> (j \<le> x \<and> x < j + int v))
             \<longrightarrow> slots s' x = slots s x"
  proof (intro allI impI)
    fix x
    assume a: "\<forall>j v. j \<in> set (k # ks) \<longrightarrow> ALL_REGISTERS j = Some v \<longrightarrow> \<not> (j \<le> x \<and> x < j + int v)"
    then have "slots s' x = slots s1 x" by (intro out') simp
    moreover have "\<not> (k \<le> x \<and> x < k + int w)" using a w by simp
    then have "block k (words_of nv w) x = None"
      by (intro block_outside) (simp add: length_words_of)
    then have "slots s1 x = slots s x" by (simp add: s1_def map_add_def)
    ultimately show "slots s' x = slots s x" by simp
  qed
  from c1 good' c3 c4 c5 c6 show ?case by blast
qed

text \<open>
  One tick: the hour meter is written first and then every catalog address is updated,
  the hour meter among them.
\<close>

lemma step_ok:
  assumes "good s" "clock_ok (start_time s) now"
  shows "\<exists>s'. step s now draw = Inr s' \<and> consistent s' \<and> start_time s' = start_time s
      \<and> (\<forall>k w. ALL_REGISTERS k = Some w \<longrightarrow>
             last_values s' k = Some (next_value (last_values s k) k (draw k)))
      \<and> (\<forall>x. \<not> covered x \<longrightarrow> slots s' x = slots s x)"
proof -
  define diris where "diris = py_int ((now - start_time s) / 36)"
  define s0 where "s0 = s\<lparr>slots := slots s ++ block HOUR_METER (words_of diris 2)\<rparr>"
  have "fits diris 2" using assms(2) by (simp add: clock_ok_def diris_def)
  then have ex: "expand_register_value HOUR_METER diris = Inr (block HOUR_METER (words_of diris 2))"
    using HOUR_METER_width by (intro expand_register_value_ok)
  have good0: "good s0" using assms(1) by (simp add: good_def s0_def)
  have cat: "\<forall>k\<in>set (dict_keys INITIAL_REGISTER_VALUES). ALL_REGISTERS k \<noteq> None"
    using keys_INITIAL by auto
  from for_each_update [OF distinct_dict_keys cat good0, of draw] obtain s' where
    run: "for_each (\<lambda>s' k. update_varying_register s' k (draw k)) s0
            (dict_keys INITIAL_REGISTER_VALUES) = Inr s'"
    and good': "good s'" and time': "start_time s' = start_time s0"
    and lv': "\<And>j. last_values s' j =
             (if j \<in> set (dict_keys INITIAL_REGISTER_VALUES)
              then Some (next_value (last_values s0 j) j (draw j))
              else last_values s0 j)"
    and in': "\<And>j v i. j \<in> set (dict_keys INITIAL_REGISTER_VALUES) \<Longrightarrow>
             ALL_REGISTERS j = Some v \<Longrightarrow> i < v \<Longrightarrow>
             slots s' (j + int i)
               = Some (words_of (next_value (last_values s0 j) j (draw j)) v ! i)"
    and out': "\<And>x. (\<forall>j v. j \<in> set (dict_keys INITIAL_REGISTER_VALUES) \<longrightarrow>
                 ALL_REGISTERS j = Some v \<longrightarrow> \<not> (j \<le> x \<and> x < j + int v))
             \<Longrightarrow> slots s' x = slots s0 x"
    by blast
  have c1: "step s now draw = Inr s'"
    using ex run by (simp add: step_def Let_def diris_def s0_def store_setValues_dict_def)
  have lv0: "last_values s0 = last_values s" by (simp add: s0_def)
  have mem: "\<And>k w. ALL_REGISTERS k = Some w \<Longrightarrow> k \<in> set (dict_keys INITIAL_REGISTER_VALUES)"
    using keys_INITIAL by auto
  have c4: "\<forall>k w. ALL_REGISTERS k = Some w \<longrightarrow>
             last_values s' k = Some (next_value (last_values s k) k (draw k))"
    using lv' mem lv0 by simp
  have c2: "consistent s'"
    unfolding consistent_def
  proof (intro conjI allI impI)
    show "good s'" by (rule good')
  next
    fix k w assume kw: "ALL_REGISTERS k = Some w"
    have "last_values s' k = Some (next_value (last_values s k) k (draw k))"
      using c4 kw by blast
    moreover have "\<forall>i<w. slots s' (k + int i)
                     = Some (words_of (next_value (last_values s k) k (draw k)) w ! i)"
      using in' [OF mem [OF kw] kw] lv0 by simp
    ultimately show "\<exists>v. last_values s' k = Some v \<and>
             (\<forall>i<w. slots s' (k + int i) = Some (words_of v w ! i))" by blast
  qed
  have c5: "\<forall>x. \<not> covered x \<longrightarrow> slots s' x = slots s x"
  proof (intro allI impI)
    fix x assume nc: "\<not> covered x"
    then have a: "\<forall>j v. ALL_REGISTERS j = Some v \<longrightarrow> \<not> (j \<le> x \<and> x < j + int v)"
      by (auto simp: covered_iff)
    then have "slots s' x = slots s0 x" by (intro out') blast
    moreover have "\<not> (HOUR_METER \<le> x \<and> x < HOUR_METER + int 2)"
      using a HOUR_METER_width by blast
    then have "block HOUR_METER (words_of diris 2) x = None"
      by (intro block_outside) (simp add: length_words_of)
    then have "slots s0 x = slots s x" by (simp add: s0_def map_add_def)
    ultimately show "slots s' x = slots s x" by simp
  qed
  from c1 c2 time' c4 c5 show ?thesis by (auto simp: s0_def)
qed

lemma consistent_logical:
  assumes "consistent s" "ALL_REGISTERS k = Some w"
  shows "\<exists>v. last_values s k = Some v \<and> within_limits k v \<and> logical_value (slots s) k = Inr v"
proof -
  from assms obtain v where v: "last_values s k = Some v"
    "\<forall>i<w. slots s (k + int i) = Some (words_of v w ! i)"
    unfolding consistent_def by blast
  have wl: "within_limits k v" using assms(1) v(1) by (auto simp: consistent_def good_def)
  then have "fits v w" using assms(2) by (intro within_limits_fits)
  from logical_value_of_words [OF assms(2) this v(2)] v(1) wl show ?thesis by blast
qed

lemma consistent_covered:
  assumes "consistent s" "covered x"
  shows "slots s x \<noteq> None"
proof -
  from assms(2) obtain k w where kw: "ALL_REGISTERS k = Some w" "k \<le> x" "x < k + int w"
    by (auto simp: covered_iff)
  from assms(1) kw(1) obtain v where "\<forall>i<w. slots s (k + int i) = Some (words_of v w ! i)"
    unfolding consistent_def by blast
  moreover have "nat (x - k) < w" using kw(2,3) by linarith
  ultimately have "slots s (k + int (nat (x - k))) = Some (words_of v w ! nat (x - k))"
    by blast
  then show ?thesis using kw(2) by simp
qed

text \<open>
  Any number of ticks from a consistent state: the last value of every catalog address
  follows \<open>walk\<close>, and only occupied slots are written.
\<close>

lemma run_ok:
  assumes "consistent s" "\<forall>(now, draw)\<in>set ticks. clock_ok (start_time s) now"
  shows "\<exists>s'. run s ticks = Inr s' \<and> consistent s' \<and> start_time s' = start_time s
      \<and> (\<forall>k w v. ALL_REGISTERS k = Some w \<longrightarrow> last_values s k = Some v \<longrightarrow>
             last_values s' k = Some (walk k v ticks))
      \<and> (\<forall>x. \<not> covered x \<longrightarrow> slots s' x = slots s x)"
  using assms
proof (induction ticks arbitrary: s)
  case Nil
  then show ?case by simp
next
  case (Cons t ticks)
  obtain now draw where t: "t = (now, draw)" by (cases t)
  have good: "good s" using Cons.prems(1) by (simp add: consistent_def)
  have clk: "clock_ok (start_time s) now" using Cons.prems(2) t by simp
  from step_ok [OF good clk, of draw] obtain s1 where
    s1: "step s now draw = Inr s1" "consistent s1" "start_time s1 = start_time s"
      "\<forall>k w. ALL_REGISTERS k = Some w \<longrightarrow>
             last_values s1 k = Some (next_value (last_values s k) k (draw k))"
      "\<forall>x. \<not> covered x \<longrightarrow> slots s1 x = slots s x"
    by blast
  have "\<forall>(now, draw)\<in>set ticks. clock_ok (start_time s1) now"
    using Cons.prems(2) s1(3) by simp
  from Cons.IH [OF s1(2) this] obtain s' where
    s': "run s1 ticks = Inr s'" "consistent s'" "start_time s' = start_time s1"
      "\<forall>k w v. ALL_REGISTERS k = Some w \<longrightarrow> last_values s1 k = Some v \<longrightarrow>
             last_values s' k = Some (walk k v ticks)"
      "\<forall>x. \<not> covered x \<longrightarrow> slots s' x = slots s1 x"
    by blast
  have "run s (t # ticks) = Inr s'" using s1(1) s'(1) t by simp
  moreover have "\<forall>k w v. ALL_REGISTERS k = Some w \<longrightarrow> last_values s k = Some v \<longrightarrow>
             last_values s' k = Some (walk k v (t # ticks))"
    using s1(4) s'(4) t by simp
  ultimately show ?case using s'(2,3,5) s1(3,5) by auto
qed

lemma create_ok:
  assumes "clock_ok t0 t1"
  shows "\<exists>c. create t0 t1 = Inr c \<and> consistent (hr c) \<and> start_time (hr c) = t0
      \<and> (\<forall>k w. ALL_REGISTERS k = Some w \<longrightarrow> last_values (hr c) k = Some (next_value None k 0))
      \<and> (\<forall>x. \<not> covered x \<longrightarrow> slots (hr c) x = None)
      \<and> di c = \<lparr>seq_address = 0, seq_values = [1]\<rparr>
      \<and> co c = \<lparr>seq_address = 0, seq_values = [1]\<rparr>
      \<and> ir c = \<lparr>seq_address = 0, seq_values = [1]\<rparr>"
proof -
  from init_store_ok obtain m where
    m: "init_store INITIAL_REGISTER_VALUES = Inr m" "\<forall>x. \<not> covered x \<longrightarrow> m x = None"
    by blast
  define s0 where "s0 = \<lparr>slots = m, last_values = Map.empty, start_time = t0\<rparr>"
  have "good s0" by (simp add: good_def s0_def)
  moreover have "clock_ok (start_time s0) t1" using assms by (simp add: s0_def)
  ultimately obtain s1 where
    s1: "step s0 t1 (\<lambda>k. 0) = Inr s1" "consistent s1" "start_time s1 = start_time s0"
      "\<forall>k w. ALL_REGISTERS k = Some w \<longrightarrow>
             last_values s1 k = Some (next_value (last_values s0 k) k 0)"
      "\<forall>x. \<not> covered x \<longrightarrow> slots s1 x = slots s0 x"
    using step_ok [of s0 t1 "\<lambda>k. 0"] by blast
  have "create t0 t1 = Inr \<lparr>di = \<lparr>seq_address = 0, seq_values = [1]\<rparr>,
               co = \<lparr>seq_address = 0, seq_values = [1]\<rparr>,
               ir = \<lparr>seq_address = 0, seq_values = [1]\<rparr>, hr = s1\<rparr>"
    using m(1) s1(1) by (simp add: create_def init_def init_dynamic_def s0_def)
  then show ?thesis using s1(2,3,4,5) m(2) by (simp add: s0_def)
qed

lemma walk_within:
  assumes "ALL_REGISTERS k = Some w" "within_limits k v"
  shows "within_limits k (walk k v ticks)"
  using assms(2)
proof (induction ticks arbitrary: v)
  case Nil
  then show ?case by simp
next
  case (Cons t ticks)
  obtain now draw where t: "t = (now, draw)" by (cases t)
  have "within_limits k (next_value (Some v) k (draw k))"
    using assms(1) Cons.prems by (intro next_value_within) auto
  from Cons.IH [OF this] show ?case by (simp add: t)
qed

text \<open>
  What is read for a catalog address after the device is created and the ticks are run:
  the walk of the address from its midpoint.
\<close>

lemma logical_after_walk:
  assumes "clock_ok t0 t1" "\<forall>(now, draw)\<in>set ticks. clock_ok t0 now"
    and "ALL_REGISTERS k = Some w"
  shows "logical_after t0 t1 ticks k = Inr (walk k (next_value None k 0) ticks)"
proof -
  from create_ok [OF assms(1)] obtain c where
    c: "create t0 t1 = Inr c" "consistent (hr c)" "start_time (hr c) = t0"
      "\<forall>k w. ALL_REGISTERS k = Some w \<longrightarrow> last_values (hr c) k = Some (next_value None k 0)"
    by blast
  have "\<forall>(now, draw)\<in>set ticks. clock_ok (start_time (hr c)) now"
    using assms(2) c(3) by simp
  from run_ok [OF c(2) this] obtain s where
    s: "run (hr c) ticks = Inr s" "consistent s"
      "\<forall>k w v. ALL_REGISTERS k = Some w \<longrightarrow> last_values (hr c) k = Some v \<longrightarrow>
             last_values s k = Some (walk k v ticks)"
    by blast
  have "last_values s k = Some (walk k (next_value None k 0) ticks)"
    using s(3) c(4) assms(3) by blast
  with consistent_logical [OF s(2) assms(3)]
  have "logical_value (slots s) k = Inr (walk k (next_value None k 0) ticks)" by auto
  then show ?thesis using c(1) s(1) by (simp add: logical_after_def)
qed

lemma midpoint_bounded:
  assumes "REGISTER_LIMITS a = Some [lo, hi]"
  shows "next_value None a p = (lo + hi) div 2" "initial_value a = (lo + hi) div 2"
    "limits_of a = [lo, hi]" "lo \<le> (lo + hi) div 2" "(lo + hi) div 2 \<le> hi"
  using REGISTER_LIMITS_cases [OF assms] assms
  by (auto simp: next_value_def limits_of_def dict_get_def py_int_def initial_value_eq)

lemma midpoint_unbounded:
  assumes "REGISTER_LIMITS a = None"
  shows "next_value None a p = 500" "initial_value a = 0" "limits_of a = [0, 1000]"
  using assms
  by (auto simp: next_value_def limits_of_def dict_get_def py_int_def initial_value_eq)

lemma clock_ok_0: "clock_ok 0 0" "clock_ok 0 1" "clock_ok 0 72" "clock_ok 0 108"
  by (simp_all add: clock_ok_def fits_def py_int_def)


section \<open>Occupied slots and the context\<close>

lemma collect_length: "collect xs = Inr ys \<Longrightarrow> length ys = length xs"
  by (induction xs arbitrary: ys) (auto split: sum.splits)

lemma pack_value_length: "pack_value v w = Inr ws \<Longrightarrow> length ws = w"
  by (auto simp: pack_value_def split: option.splits sum.splits dest!: collect_length)

lemma expand_register_value_dom:
  assumes "ALL_REGISTERS k = Some w" "expand_register_value k v = Inr d"
  shows "dom d = {k..<k + int w}"
proof -
  from assms obtain ws where ws: "pack_value v w = Inr ws" "d = block k ws"
    by (auto simp: expand_register_value_def dict_of_enumerate split: sum.splits)
  from pack_value_length [OF ws(1)] ws(2) show ?thesis by (simp add: dom_block)
qed

lemma covered_range:
  assumes "ALL_REGISTERS k = Some w"
  shows "{k..<k + int w} \<subseteq> {x. covered x}"
proof
  fix x assume "x \<in> {k..<k + int w}"
  then have "ALL_REGISTERS k = Some w \<and> k \<le> x \<and> x < k + int w" using assms by simp
  then have "\<exists>k w. ALL_REGISTERS k = Some w \<and> k \<le> x \<and> x < k + int w" by blast
  then show "x \<in> {x. covered x}" by (simp add: covered_iff)
qed

lemma dom_consistent:
  assumes "consistent s" "\<forall>x. \<not> covered x \<longrightarrow> slots s x = None"
  shows "dom (slots s) = {x. covered x}"
  using assms consistent_covered [OF assms(1)] by (auto simp: dom_def)

lemma dom_init_store:
  assumes "init_store INITIAL_REGISTER_VALUES = Inr m"
  shows "dom m = {x. covered x}"
proof -
  from init_store_ok assms have
    m: "\<forall>k w i. ALL_REGISTERS k = Some w \<longrightarrow> i < w \<longrightarrow>
             m (k + int i) = Some (words_of (initial_value k) w ! i)"
      "\<forall>x. \<not> covered x \<longrightarrow> m x = None"
    by auto
  have "m x \<noteq> None" if "covered x" for x
  proof -
    from that obtain k w where kw: "ALL_REGISTERS k = Some w" "k \<le> x" "x < k + int w"
      by (auto simp: covered_iff)
    moreover have "nat (x - k) < w" using kw(2,3) by linarith
    ultimately have "m (k + int (nat (x - k))) = Some (words_of (initial_value k) w ! nat (x - k))"
      using m(1) by blast
    then show ?thesis using kw(2) by simp
  qed
  with m(2) show ?thesis by (auto simp: dom_def)
qed

lemma store_validate_dom:
  "dom A = dom B \<Longrightarrow> store_validate A address count = store_validate B address count"
  by (auto simp: store_validate_def list_all_iff dom_def set_eq_iff)

lemma store_setValues_eq: "store_setValues sl a vals = sl ++ block a vals"
  by (simp add: store_setValues_def dict_of_enumerate)

lemma backed_iff:
  "list_all (\<lambda>a. sl a \<noteq> None) [address..address + count - 1]
     \<longleftrightarrow> (\<forall>a. address \<le> a \<and> a < address + count \<longrightarrow> a \<in> dom sl)"
  by (auto simp: list_all_iff)

lemma store_validate_iff:
  "store_validate sl address count
     \<longleftrightarrow> count \<noteq> 0 \<and> (\<forall>a. address \<le> a \<and> a < address + count \<longrightarrow> a \<in> dom sl)"
  unfolding store_validate_def backed_iff by simp

lemma store_getValues_nth:
  assumes "\<forall>a. address \<le> a \<and> a < address + count \<longrightarrow> a \<in> dom sl"
  shows "\<exists>ws. store_getValues sl address count = Inr ws \<and> length ws = nat count
           \<and> (\<forall>i<nat count. sl (address + int i) = Some (ws ! i))"
proof -
  have "sl (address + int i) = Some (the (sl (address + int i)))" if "i < nat count" for i
  proof -
    have "address + int i \<in> dom sl" using assms that by auto
    then show ?thesis by auto
  qed
  moreover have "list_all (\<lambda>a. sl a \<noteq> None) [address..address + count - 1]"
    using assms unfolding backed_iff by blast
  ultimately show ?thesis by (simp add: store_getValues_def)
qed

lemma store_getValues_unbacked:
  assumes "\<not> (\<forall>a. address \<le> a \<and> a < address + count \<longrightarrow> a \<in> dom sl)"
  shows "store_getValues sl address count = Inl KeyError"
  using assms unfolding store_getValues_def backed_iff by simp

lemma create_slots:
  assumes "clock_ok t0 t1" "ALL_REGISTERS k = Some w"
  shows "\<exists>c. create t0 t1 = Inr c
     \<and> (\<forall>i<w. slots (hr c) (k + int i) = Some (words_of (next_value None k 0) w ! i))"
proof -
  from create_ok [OF assms(1)] obtain c where
    c: "create t0 t1 = Inr c" "consistent (hr c)"
      "\<forall>k w. ALL_REGISTERS k = Some w \<longrightarrow> last_values (hr c) k = Some (next_value None k 0)"
    by blast
  from c(2) assms(2) obtain v where v: "last_values (hr c) k = Some v"
    "\<forall>i<w. slots (hr c) (k + int i) = Some (words_of v w ! i)"
    unfolding consistent_def by blast
  with c(3) assms(2) have "v = next_value None k 0" by simp
  with v(2) c(1) show ?thesis by blast
qed

lemma width_50520: "ALL_REGISTERS 50520 = Some 2"
  by (simp add: ALL_REGISTERS_eq)

lemma walk_append:
  "walk k v (ticks @ [(now, draw)]) = next_value (Some (walk k v ticks)) k (draw k)"
proof (induction ticks arbitrary: v)
  case Nil
  show ?case by simp
next
  case (Cons t ticks)
  obtain now' draw' where t: "t = (now', draw')" by (cases t)
  show ?case using Cons.IH by (simp add: t)
qed

lemma width_50768: "ALL_REGISTERS 50768 = Some 2"
  by (simp add: ALL_REGISTERS_eq)

lemma nth_words_of: "i < w \<Longrightarrow> words_of v w ! i = (v div 65536 ^ (w - 1 - i)) mod 65536"
  by (simp add: words_of_def)

lemma value_of_words:
  assumes "w = 1 \<or> w = 2 \<or> w = 4"
  shows "foldl (\<lambda>acc x. acc * 65536 + x) 0 (words_of v w) = v mod 2 ^ (16 * w)"
  using assms value_of_words_1 [of v] value_of_words_2 [of v] value_of_words_4 [of v]
  by auto

lemma width_51280: "ALL_REGISTERS 51280 = Some 1"
  by (simp add: ALL_REGISTERS_eq)

lemma limits_51280: "REGISTER_LIMITS 51280 = None"
  by (simp add: REGISTER_LIMITS_def REGISTER_LIMITS_items_def dict_of_def)

lemma created_logical:
  assumes "create t0 t1 = Inr c" "clock_ok t0 t1" "ALL_REGISTERS a = Some w"
  shows "logical_value (slots (hr c)) a = Inr (next_value None a 0)"
    "store_getValues (slots (hr c)) a (int w) = pack_value (next_value None a 0) w"
proof -
  from create_slots [OF assms(2,3)] assms(1) have
    ws: "\<forall>i<w. slots (hr c) (a + int i) = Some (words_of (next_value None a 0) w ! i)"
    by auto
  have "within_limits a (next_value None a 0)"
    using assms(3) by (intro next_value_within) auto
  then have f: "fits (next_value None a 0) w" using assms(3) by (intro within_limits_fits)
  show "logical_value (slots (hr c)) a = Inr (next_value None a 0)"
    using assms(3) f ws by (rule logical_value_of_words)
  have "w = 1 \<or> w = 2 \<or> w = 4" using width_cases [OF assms(3)] by blast
  then have "pack_value (next_value None a 0) w = Inr (words_of (next_value None a 0) w)"
    using f by (rule pack_value_words_of)
  moreover have "store_getValues (slots (hr c)) a (int w)
                   = Inr (words_of (next_value None a 0) w)"
    using ws by (intro store_getValues_words) (simp_all add: length_words_of)
  ultimately show "store_getValues (slots (hr c)) a (int w)
                     = pack_value (next_value None a 0) w"
    by simp
qed


section \<open>The context and its stores\<close>

text \<open>
  A slice that lies within the list is the part of the list it names, and an assignment
  to it replaces that part and nothing else.
\<close>

lemma py_slice_in_range:
  assumes "0 \<le> i" "0 \<le> n" "i + n \<le> int (length xs)"
  shows "py_slice xs i (i + n) = take (nat n) (drop (nat i) xs)"
proof -
  have "slice_bound (length xs) i = nat i" "slice_bound (length xs) (i + n) = nat i + nat n"
    using assms by (auto simp: slice_bound_def)
  then show ?thesis by (simp add: py_slice_def Let_def)
qed

lemma py_slice_assign_in_range:
  assumes "0 \<le> i" "i + int (length vs) \<le> int (length xs)"
  shows "py_slice_assign xs i (i + int (length vs)) vs
           = take (nat i) xs @ vs @ drop (nat i + length vs) xs"
proof -
  have "slice_bound (length xs) i = nat i"
    "slice_bound (length xs) (i + int (length vs)) = nat i + length vs"
    using assms by (auto simp: slice_bound_def)
  then show ?thesis by (simp add: py_slice_assign_def Let_def)
qed

lemma seq_getValues_in_range:
  assumes "seq_address b \<le> address" "0 \<le> count"
    and "address + count \<le> seq_address b + int (length (seq_values b))"
  shows "length (seq_getValues b address count) = nat count"
    "\<forall>i<nat count. seq_getValues b address count ! i
        = seq_values b ! (nat (address - seq_address b) + i)"
proof -
  have eq: "seq_getValues b address count
          = take (nat count) (drop (nat (address - seq_address b)) (seq_values b))"
    using assms by (simp add: seq_getValues_def Let_def py_slice_in_range)
  show "length (seq_getValues b address count) = nat count"
    using assms by (simp add: eq)
  show "\<forall>i<nat count. seq_getValues b address count ! i
        = seq_values b ! (nat (address - seq_address b) + i)"
    using assms by (simp add: eq)
qed

lemma seq_setValues_in_range:
  assumes "seq_address b \<le> address"
    and "address + int (length vals) \<le> seq_address b + int (length (seq_values b))"
  shows "length (seq_values (seq_setValues b address vals)) = length (seq_values b)"
    "\<forall>i<length vals. seq_values (seq_setValues b address vals)
        ! (nat (address - seq_address b) + i) = vals ! i"
    "\<forall>j<length (seq_values b).
        \<not> (nat (address - seq_address b) \<le> j \<and> j < nat (address - seq_address b) + length vals)
        \<longrightarrow> seq_values (seq_setValues b address vals) ! j = seq_values b ! j"
    "seq_getValues (seq_setValues b address vals) address (int (length vals)) = vals"
proof -
  define s where "s = nat (address - seq_address b)"
  have s: "s + length vals \<le> length (seq_values b)" using assms by (simp add: s_def)
  have eq: "seq_values (seq_setValues b address vals)
          = take s (seq_values b) @ vals @ drop (s + length vals) (seq_values b)"
    using assms by (simp add: seq_setValues_def Let_def py_slice_assign_in_range s_def)
  show len: "length (seq_values (seq_setValues b address vals)) = length (seq_values b)"
    using s by (simp add: eq)
  show "\<forall>i<length vals. seq_values (seq_setValues b address vals)
        ! (nat (address - seq_address b) + i) = vals ! i"
    using s by (simp add: eq nth_append s_def [symmetric])
  show "\<forall>j<length (seq_values b).
        \<not> (nat (address - seq_address b) \<le> j \<and> j < nat (address - seq_address b) + length vals)
        \<longrightarrow> seq_values (seq_setValues b address vals) ! j = seq_values b ! j"
    using s by (auto simp: eq nth_append s_def [symmetric])
  have "seq_getValues (seq_setValues b address vals) address (int (length vals))
          = take (length vals) (drop s (seq_values (seq_setValues b address vals)))"
    using assms len by (simp add: seq_getValues_def Let_def py_slice_in_range s_def seq_setValues_def)
  also have "\<dots> = vals" using s by (simp add: eq)
  finally show "seq_getValues (seq_setValues b address vals) address (int (length vals)) = vals" .
qed

lemma holding_validate:
  assumes "decode fx = Some HoldingRegisters"
  shows "validate ctx fx address count
           = Inr (count \<noteq> 0 \<and> (\<forall>a. address \<le> a \<and> a < address + count \<longrightarrow> a \<in> dom (slots (hr ctx))))"
  using assms by (simp add: validate_def store_validate_iff)

lemma holding_getValues:
  assumes "decode fx = Some HoldingRegisters"
  shows "getValues ctx fx address count = store_getValues (slots (hr ctx)) address count"
  using assms by (simp add: getValues_def)

lemma holding_setValues:
  assumes "decode fx = Some HoldingRegisters"
  shows "\<exists>ctx'. setValues ctx fx address vals = Inr ctx'
     \<and> (\<forall>i<length vals. slots (hr ctx') (address + int i) = Some (vals ! i))
     \<and> (\<forall>a. \<not> (address \<le> a \<and> a < address + int (length vals)) \<longrightarrow>
            slots (hr ctx') a = slots (hr ctx) a)
     \<and> last_values (hr ctx') = last_values (hr ctx)
     \<and> start_time (hr ctx') = start_time (hr ctx)
     \<and> di ctx' = di ctx \<and> co ctx' = co ctx \<and> ir ctx' = ir ctx
     \<and> getValues ctx' fx address (int (length vals)) = Inr vals"
proof -
  define ctx' where
    "ctx' = ctx\<lparr>hr := (hr ctx)\<lparr>slots := slots (hr ctx) ++ block address vals\<rparr>\<rparr>"
  have w: "setValues ctx fx address vals = Inr ctx'"
    using assms by (simp add: setValues_def store_setValues_eq ctx'_def)
  have inside: "\<forall>i<length vals. slots (hr ctx') (address + int i) = Some (vals ! i)"
    by (simp add: ctx'_def block_inside)
  have outside: "\<forall>a. \<not> (address \<le> a \<and> a < address + int (length vals)) \<longrightarrow>
            slots (hr ctx') a = slots (hr ctx) a"
    by (simp add: ctx'_def block_def map_add_def)
  have rest: "last_values (hr ctx') = last_values (hr ctx)"
    "start_time (hr ctx') = start_time (hr ctx)"
    "di ctx' = di ctx" "co ctx' = co ctx" "ir ctx' = ir ctx"
    by (simp_all add: ctx'_def)
  have "store_getValues (slots (hr ctx')) address (int (length vals)) = Inr vals"
    using inside by (intro store_getValues_words) simp_all
  then have readback: "getValues ctx' fx address (int (length vals)) = Inr vals"
    using assms by (simp add: getValues_def)
  show ?thesis
    using w inside outside rest readback by (intro exI [of _ ctx']) simp
qed

lemma sequential_ops:
  assumes "decode fx = Some f" "sequential_store ctx f = Some b"
  shows "validate ctx fx address count = Inr (seq_validate b address count)"
    "getValues ctx fx address count = Inr (seq_getValues b address count)"
    "\<exists>ctx'. setValues ctx fx address vals = Inr ctx'
       \<and> sequential_store ctx' f = Some (seq_setValues b address vals)
       \<and> hr ctx' = hr ctx
       \<and> (\<forall>g. g \<noteq> f \<longrightarrow> sequential_store ctx' g = sequential_store ctx g)
       \<and> getValues ctx' fx address (int (length vals))
           = Inr (seq_getValues (seq_setValues b address vals) address (int (length vals)))"
proof -
  show "validate ctx fx address count = Inr (seq_validate b address count)"
    using assms by (cases f) (auto simp: validate_def sequential_store_def)
  show "getValues ctx fx address count = Inr (seq_getValues b address count)"
    using assms by (cases f) (auto simp: getValues_def sequential_store_def)
  show "\<exists>ctx'. setValues ctx fx address vals = Inr ctx'
       \<and> sequential_store ctx' f = Some (seq_setValues b address vals)
       \<and> hr ctx' = hr ctx
       \<and> (\<forall>g. g \<noteq> f \<longrightarrow> sequential_store ctx' g = sequential_store ctx g)
       \<and> getValues ctx' fx address (int (length vals))
           = Inr (seq_getValues (seq_setValues b address vals) address (int (length vals)))"
  proof (cases f)
    case DiscreteInputs
    have "\<forall>g. g \<noteq> f \<longrightarrow> sequential_store (ctx\<lparr>di := seq_setValues b address vals\<rparr>) g
             = sequential_store ctx g"
      using DiscreteInputs by (auto simp: sequential_store_def split: family.splits)
    then show ?thesis using assms DiscreteInputs
      by (intro exI [of _ "ctx\<lparr>di := seq_setValues b address vals\<rparr>"])
        (simp add: setValues_def getValues_def sequential_store_def)
  next
    case Coils
    have "\<forall>g. g \<noteq> f \<longrightarrow> sequential_store (ctx\<lparr>co := seq_setValues b address vals\<rparr>) g
             = sequential_store ctx g"
      using Coils by (auto simp: sequential_store_def split: family.splits)
    then show ?thesis using assms Coils
      by (intro exI [of _ "ctx\<lparr>co := seq_setValues b address vals\<rparr>"])
        (simp add: setValues_def getValues_def sequential_store_def)
  next
    case InputRegisters
    have "\<forall>g. g \<noteq> f \<longrightarrow> sequential_store (ctx\<lparr>ir := seq_setValues b address vals\<rparr>) g
             = sequential_store ctx g"
      using InputRegisters by (auto simp: sequential_store_def split: family.splits)
    then show ?thesis using assms InputRegisters
      by (intro exI [of _ "ctx\<lparr>ir := seq_setValues b address vals\<rparr>"])
        (simp add: setValues_def getValues_def sequential_store_def)
  next
    case HoldingRegisters
    with assms(2) show ?thesis by (simp add: sequential_store_def)
  qed
qed

lemma decode_codes:
  "decode 3 = Some HoldingRegisters" "decode 16 = Some HoldingRegisters"
  "decode 1 = Some Coils" "decode 5 = Some Coils"
  by (simp_all add: decode_def)

lemma example_slots:
  "slots (hr example_context) 50520 = Some 0" "slots (hr example_context) 50521 = Some 25000"
  "dom (slots (hr example_context)) = {50520, 50521}"
  by (auto simp: example_context_def)


section \<open>The first call makes no draw\<close>

lemma update_first_draw_unused:
  "last_values s k = None \<Longrightarrow> update_varying_register s k p = update_varying_register s k q"
  by (simp add: update_varying_register_def)

lemma update_last_values:
  "update_varying_register s k p = Inr s1 \<Longrightarrow> \<exists>v. last_values s1 = (last_values s)(k \<mapsto> v)"
  by (auto simp: update_varying_register_def Let_def split: sum.splits)

lemma for_each_first_draws_unused:
  assumes "distinct ks" "\<forall>k\<in>set ks. last_values s k = None"
  shows "for_each (\<lambda>s' k. update_varying_register s' k (d1 k)) s ks
           = for_each (\<lambda>s' k. update_varying_register s' k (d2 k)) s ks"
  using assms
proof (induction ks arbitrary: s)
  case Nil
  show ?case by simp
next
  case (Cons k ks)
  have eq: "update_varying_register s k (d1 k) = update_varying_register s k (d2 k)"
    using Cons.prems(2) by (intro update_first_draw_unused) simp
  show ?case
  proof (cases "update_varying_register s k (d2 k)")
    case (Inl e)
    with eq show ?thesis by simp
  next
    case (Inr s1)
    from update_last_values [OF Inr] obtain v where "last_values s1 = (last_values s)(k \<mapsto> v)"
      by blast
    then have "\<forall>j\<in>set ks. last_values s1 j = None"
      using Cons.prems by auto
    moreover have "distinct ks" using Cons.prems(1) by simp
    ultimately have "for_each (\<lambda>s' k. update_varying_register s' k (d1 k)) s1 ks
           = for_each (\<lambda>s' k. update_varying_register s' k (d2 k)) s1 ks"
      by (intro Cons.IH)
    with eq Inr show ?thesis by simp
  qed
qed

lemma first_step_draws_unused:
  assumes "last_values s = Map.empty"
  shows "step s now d1 = step s now d2"
proof (cases "expand_register_value HOUR_METER (py_int ((now - start_time s) / 36))")
  case (Inl e)
  then show ?thesis by (simp add: step_def)
next
  case (Inr d)
  have "for_each (\<lambda>s' k. update_varying_register s' k (d1 k))
          (s\<lparr>slots := store_setValues_dict (slots s) HOUR_METER d\<rparr>)
          (dict_keys INITIAL_REGISTER_VALUES)
        = for_each (\<lambda>s' k. update_varying_register s' k (d2 k))
          (s\<lparr>slots := store_setValues_dict (slots s) HOUR_METER d\<rparr>)
          (dict_keys INITIAL_REGISTER_VALUES)"
    using assms by (intro for_each_first_draws_unused distinct_dict_keys) simp
  with Inr show ?thesis by (simp add: step_def)
qed

lemma init_draws_unused:
  "init vals t0 t1
     = (case init_dynamic vals t0 of Inl e \<Rightarrow> Inl e | Inr s \<Rightarrow> step s t1 draw)"
proof (cases "init_dynamic vals t0")
  case (Inl e)
  then show ?thesis by (simp add: init_def)
next
  case (Inr s)
  then have "last_values s = Map.empty"
    by (auto simp: init_dynamic_def split: sum.splits)
  from first_step_draws_unused [OF this] Inr show ?thesis by (simp add: init_def)
qed


section \<open>The claims\<close>

subsection \<open>The hour meter\<close>

text \<open>
  Claim C1: after every tick the hour-meter register should hold the elapsed time in
  units of 36 seconds and should never decrease. The code writes that value first, but the
  loop over all catalog addresses that follows visits the hour meter too, which has no
  limits, and overwrites it with a value of the random walk over the default range.
  With the device created at time 0: a tick at 72 seconds (2 units) leaves 500 in the
  register, and a next tick at 108 seconds (3 units) with a draw of 40 leaves 475.
\<close>

theorem hour_meter_overwritten:
  "py_int ((72 - 0) / 36) = 2 \<and> py_int ((108 - 0) / 36) = 3
   \<and> logical_after 0 0 [(72, forced_draw 80)] HOUR_METER = Inr 500
   \<and> logical_after 0 0 [(72, forced_draw 80), (108, forced_draw 40)] HOUR_METER = Inr 475"
proof -
  have mid: "next_value None HOUR_METER 0 = 500" "limits_of HOUR_METER = [0, 1000]"
    using midpoint_unbounded [OF limits_HOUR_METER] by simp_all
  have "logical_after 0 0 [(72, forced_draw 80)] HOUR_METER = Inr 500"
    using logical_after_walk [OF clock_ok_0(1) _ HOUR_METER_width, of "[(72, forced_draw 80)]"]
      clock_ok_0(3) mid
    by (simp add: next_value_def forced_draw_def)
  moreover have "logical_after 0 0 [(72, forced_draw 80), (108, forced_draw 40)] HOUR_METER
                   = Inr 475"
    using logical_after_walk [OF clock_ok_0(1) _ HOUR_METER_width,
        of "[(72, forced_draw 80), (108, forced_draw 40)]"]
      clock_ok_0(3,4) mid
    by (simp add: next_value_def forced_draw_def)
  ultimately show ?thesis by (simp add: py_int_def)
qed

subsection \<open>Addresses without limits\<close>

text \<open>
  Claim C2, as stated, fails: address 50768 (\<^verbatim>\<open>0xC650\<close>) is in the catalog and has no
  limits, yet it holds 500 once the device is created and 525 after a tick with a draw
  of 10.
\<close>

theorem unbounded_register_counterexample:
  "ALL_REGISTERS 50768 = Some 2 \<and> REGISTER_LIMITS 50768 = None
   \<and> logical_after 0 0 [] 50768 = Inr 500
   \<and> logical_after 0 0 [(1, forced_draw 10)] 50768 = Inr 525"
proof -
  have mid: "next_value None 50768 0 = 500" "limits_of 50768 = [0, 1000]"
    using midpoint_unbounded [OF limits_50768] by simp_all
  have "logical_after 0 0 [] 50768 = Inr 500"
    using logical_after_walk [OF clock_ok_0(1) _ width_50768, of "[]"] mid(1) by simp
  moreover have "logical_after 0 0 [(1, forced_draw 10)] 50768 = Inr 525"
    using logical_after_walk [OF clock_ok_0(1) _ width_50768, of "[(1, forced_draw 10)]"]
      clock_ok_0(2) mid
    by (simp add: next_value_def forced_draw_def)
  ultimately show ?thesis using width_50768 limits_50768 by simp
qed

text \<open>
  Claim C2, amended: a catalog address without limits, other than the hour meter, is
  walked like the others, with the default range \<open>[0, 1000]\<close>. It holds 500 once the
  device is created, it stays within \<open>[0, 1000]\<close> after any number of ticks, and each
  further tick raises it by 25 (at most to 1000) on a draw below 25, lowers it by 25 (at
  least to 0) on a draw from 25 to 49, and leaves it unchanged otherwise.
\<close>

theorem unbounded_registers_walk:
  assumes "ALL_REGISTERS a = Some w" "REGISTER_LIMITS a = None" "a \<noteq> HOUR_METER"
    and "clock_ok t0 t1" "\<forall>(now, draw)\<in>set ticks. clock_ok t0 now" "clock_ok t0 now"
  shows "logical_after t0 t1 [] a = Inr 500
     \<and> (\<exists>v. logical_after t0 t1 ticks a = Inr v \<and> 0 \<le> v \<and> v \<le> 1000
          \<and> logical_after t0 t1 (ticks @ [(now, draw)]) a
              = Inr (if draw a < 25 then min 1000 (v + 25)
                     else if draw a < 50 then max 0 (v - 25) else v))"
proof -
  have mid: "next_value None a 0 = 500" "limits_of a = [0, 1000]"
    using midpoint_unbounded [OF assms(2)] by simp_all
  define v where "v = walk a 500 ticks"
  have after0: "logical_after t0 t1 [] a = Inr 500"
    using logical_after_walk [OF assms(4) _ assms(1), of "[]"] mid(1) by simp
  have after: "logical_after t0 t1 ticks a = Inr v"
    using logical_after_walk [OF assms(4,5,1)] mid(1) by (simp add: v_def)
  have "within_limits a (next_value None a 0)"
    using assms(1) by (intro next_value_within) auto
  then have "within_limits a v"
    unfolding v_def mid(1) [symmetric] using assms(1) by (intro walk_within)
  then have range: "0 \<le> v \<and> v \<le> 1000" by (simp add: within_limits_def mid(2))
  have "\<forall>(now, draw)\<in>set (ticks @ [(now, draw)]). clock_ok t0 now"
    using assms(5,6) by auto
  moreover have "next_value (Some v) a (draw a)
          = (if draw a < 25 then min 1000 (v + 25)
             else if draw a < 50 then max 0 (v - 25) else v)"
    by (simp add: next_value_def mid(2))
  ultimately have "logical_after t0 t1 (ticks @ [(now, draw)]) a
          = Inr (if draw a < 25 then min 1000 (v + 25)
                 else if draw a < 50 then max 0 (v - 25) else v)"
    using logical_after_walk [OF assms(4) _ assms(1), of "ticks @ [(now, draw)]"]
    by (simp add: walk_append mid(1) v_def)
  with after0 after range show ?thesis by blast
qed

theorem unbounded_registers_walk_witness:
  "ALL_REGISTERS 50768 = Some 2 \<and> REGISTER_LIMITS 50768 = None \<and> 50768 \<noteq> HOUR_METER
   \<and> clock_ok 0 0 \<and> clock_ok 0 1 \<and> clock_ok 0 72
   \<and> logical_after 0 0 [] 50768 = Inr 500
   \<and> (\<exists>v. logical_after 0 0 [(1, forced_draw 10)] 50768 = Inr v \<and> 0 \<le> v \<and> v \<le> 1000
        \<and> logical_after 0 0 ([(1, forced_draw 10)] @ [(72, forced_draw 40)]) 50768
            = Inr (max 0 (v - 25)))"
proof -
  have h: "50768 \<noteq> HOUR_METER" by (simp add: HOUR_METER_def)
  have t: "\<forall>(now, draw)\<in>set [(1, forced_draw 10)]. clock_ok 0 now"
    using clock_ok_0(2) by simp
  from unbounded_registers_walk [OF width_50768 limits_50768 h clock_ok_0(1) t clock_ok_0(3),
      of "forced_draw 40"]
  show ?thesis using width_50768 limits_50768 h clock_ok_0 by (simp add: forced_draw_def)
qed

subsection \<open>The scenario of address 50520\<close>

text \<open>
  Claim C3: address 50520 has the limits \<open>[0, 50000]\<close>. Its logical value is 25000 in
  the store as it is built and once the device is created (the call of \<^verbatim>\<open>_step\<close> made
  when the loop is started only records the midpoint). After one tick whose draw for the
  address is 10 the value is 25025; with a draw of 40 it is 24975; with a draw of 80 it
  is still 25000.
\<close>

theorem scenario_50520:
  assumes "clock_ok t0 t1" "clock_ok t0 now"
  shows "REGISTER_LIMITS 50520 = Some [0, 50000]
     \<and> (\<exists>m. init_store INITIAL_REGISTER_VALUES = Inr m \<and> logical_value m 50520 = Inr 25000)
     \<and> logical_after t0 t1 [] 50520 = Inr 25000
     \<and> (draw 50520 = 10 \<longrightarrow> logical_after t0 t1 [(now, draw)] 50520 = Inr 25025)
     \<and> (draw 50520 = 40 \<longrightarrow> logical_after t0 t1 [(now, draw)] 50520 = Inr 24975)
     \<and> (draw 50520 = 80 \<longrightarrow> logical_after t0 t1 [(now, draw)] 50520 = Inr 25000)"
proof -
  have mid: "next_value None 50520 0 = 25000" "initial_value 50520 = 25000"
    "limits_of 50520 = [0, 50000]"
    using midpoint_bounded [OF limits_50520] by simp_all
  from init_store_ok obtain m where m: "init_store INITIAL_REGISTER_VALUES = Inr m" by blast
  have built: "\<exists>m. init_store INITIAL_REGISTER_VALUES = Inr m \<and> logical_value m 50520 = Inr 25000"
    using m initial_logical(1) [OF m width_50520] mid(2) by auto
  have after0: "logical_after t0 t1 [] 50520 = Inr 25000"
    using logical_after_walk [OF assms(1) _ width_50520, of "[]"] mid(1) by simp
  have after1: "logical_after t0 t1 [(now, draw)] 50520
                  = Inr (next_value (Some 25000) 50520 (draw 50520))"
    using logical_after_walk [OF assms(1) _ width_50520, of "[(now, draw)]"] assms(2) mid(1)
    by simp
  show ?thesis
    using limits_50520 built after0 after1 by (simp add: next_value_def mid(3))
qed

theorem scenario_50520_witness:
  "clock_ok 0 0 \<and> clock_ok 0 1 \<and> forced_draw 10 50520 = 10
   \<and> logical_after 0 0 [] 50520 = Inr 25000
   \<and> logical_after 0 0 [(1, forced_draw 10)] 50520 = Inr 25025"
  using scenario_50520 [of 0 0 1 "forced_draw 10"] clock_ok_0
  by (simp add: forced_draw_def)

subsection \<open>The update rule\<close>

text \<open>
  Claim C4, as stated, fails on the range of the draw: \<^verbatim>\<open>random.randint(0,100)\<close> can
  return 100, which is not below 100.
\<close>

theorem draw_range_counterexample:
  "100 \<in> set draw_outcomes \<and> \<not> (100::int) < 100"
  by (simp add: draw_outcomes_def randint_def)

text \<open>
  Claim C4, amended: for an address with limits \<open>[lo, hi]\<close>, the first update records
  the midpoint as last value and makes no draw; every later update draws an integer from
  0 to 100, both included, and, the last value being within the limits, a draw below 25
  raises it by 25 but not above \<open>hi\<close>, a draw from 25 to 49 lowers it by 25 but not below
  \<open>lo\<close>, and a draw from 50 to 100 leaves it unchanged. The new value is written to the
  store.
\<close>

theorem update_rule:
  assumes "REGISTER_LIMITS a = Some [lo, hi]"
  shows "(last_values s a = None \<longrightarrow>
            (\<exists>s'. update_varying_register s a p = Inr s'
               \<and> last_values s' a = Some ((lo + hi) div 2)
               \<and> logical_value (slots s') a = Inr ((lo + hi) div 2)))
     \<and> (\<forall>l. last_values s a = Some l \<and> lo \<le> l \<and> l \<le> hi \<and> p \<in> set draw_outcomes \<longrightarrow>
            0 \<le> p \<and> p \<le> 100
            \<and> (\<exists>s'. update_varying_register s a p = Inr s'
                 \<and> last_values s' a
                     = Some (if p < 25 then min hi (l + 25)
                             else if p < 50 then max lo (l - 25) else l)
                 \<and> logical_value (slots s') a
                     = Inr (if p < 25 then min hi (l + 25)
                            else if p < 50 then max lo (l - 25) else l)))"
proof -
  have w: "ALL_REGISTERS a = Some 2" using REGISTER_LIMITS_cases [OF assms] by blast
  note mid = midpoint_bounded [OF assms]
  have step: "\<exists>s'. update_varying_register s a p = Inr s'
               \<and> last_values s' a = Some (next_value (last_values s a) a p)
               \<and> logical_value (slots s') a = Inr (next_value (last_values s a) a p)"
    if prev: "\<forall>l. last_values s a = Some l \<longrightarrow> within_limits a l"
  proof -
    define nv where "nv = next_value (last_values s a) a p"
    define s' where "s' = s\<lparr>last_values := (last_values s)(a \<mapsto> nv),
                            slots := slots s ++ block a (words_of nv 2)\<rparr>"
    have u: "update_varying_register s a p = Inr s'"
      using update_varying_register_ok [OF w prev] by (simp add: s'_def nv_def)
    have "within_limits a nv" unfolding nv_def using w prev by (rule next_value_within)
    then have f: "fits nv 2" using w by (intro within_limits_fits)
    have "\<forall>i<2. slots s' (a + int i) = Some (words_of nv 2 ! i)"
      by (simp add: s'_def block_inside length_words_of)
    from logical_value_of_words [OF w f this] u show ?thesis
      by (intro exI [of _ s']) (simp add: s'_def nv_def)
  qed
  have first: "last_values s a = None \<longrightarrow>
            (\<exists>s'. update_varying_register s a p = Inr s'
               \<and> last_values s' a = Some ((lo + hi) div 2)
               \<and> logical_value (slots s') a = Inr ((lo + hi) div 2))"
  proof
    assume n: "last_values s a = None"
    then have "\<forall>l. last_values s a = Some l \<longrightarrow> within_limits a l" by simp
    from step [OF this] show "\<exists>s'. update_varying_register s a p = Inr s'
               \<and> last_values s' a = Some ((lo + hi) div 2)
               \<and> logical_value (slots s') a = Inr ((lo + hi) div 2)"
      using mid(1) [of p] by (simp add: n)
  qed
  have later: "\<forall>l. last_values s a = Some l \<and> lo \<le> l \<and> l \<le> hi \<and> p \<in> set draw_outcomes \<longrightarrow>
            0 \<le> p \<and> p \<le> 100
            \<and> (\<exists>s'. update_varying_register s a p = Inr s'
                 \<and> last_values s' a
                     = Some (if p < 25 then min hi (l + 25)
                             else if p < 50 then max lo (l - 25) else l)
                 \<and> logical_value (slots s') a
                     = Inr (if p < 25 then min hi (l + 25)
                            else if p < 50 then max lo (l - 25) else l))"
  proof (intro allI impI)
    fix l
    assume a: "last_values s a = Some l \<and> lo \<le> l \<and> l \<le> hi \<and> p \<in> set draw_outcomes"
    then have "\<forall>l. last_values s a = Some l \<longrightarrow> within_limits a l"
      by (simp add: within_limits_def mid(3))
    moreover have "next_value (Some l) a p
          = (if p < 25 then min hi (l + 25) else if p < 50 then max lo (l - 25) else l)"
      by (simp add: next_value_def mid(3))
    ultimately show "0 \<le> p \<and> p \<le> 100
            \<and> (\<exists>s'. update_varying_register s a p = Inr s'
                 \<and> last_values s' a
                     = Some (if p < 25 then min hi (l + 25)
                             else if p < 50 then max lo (l - 25) else l)
                 \<and> logical_value (slots s') a
                     = Inr (if p < 25 then min hi (l + 25)
                            else if p < 50 then max lo (l - 25) else l))"
      using step a by (simp add: draw_outcomes_def randint_def)
  qed
  from first later show ?thesis by (rule conjI)
qed

theorem update_rule_witness:
  "REGISTER_LIMITS 50520 = Some [0, 50000]
   \<and> 100 \<in> set draw_outcomes
   \<and> (\<exists>s'. update_varying_register
              \<lparr>slots = Map.empty, last_values = [50520 \<mapsto> 25000], start_time = 0\<rparr> 50520 100
            = Inr s'
        \<and> last_values s' 50520 = Some 25000
        \<and> logical_value (slots s') 50520 = Inr 25000)"
  using update_rule [OF limits_50520,
      of "\<lparr>slots = Map.empty, last_values = [50520 \<mapsto> 25000], start_time = 0\<rparr>" 100]
    limits_50520
  by (simp add: draw_outcomes_def randint_def)

subsection \<open>Bounds containment\<close>

text \<open>
  Claim C5: for every address with limits \<open>[lo, hi]\<close>, after the device is created and
  after any number of ticks with any draws, the simulation has not failed and the logical
  value stored for the address lies in \<open>[lo, hi]\<close>, both ends included.
\<close>

theorem bounds_containment:
  assumes "REGISTER_LIMITS a = Some [lo, hi]"
    and "clock_ok t0 t1" and "\<forall>(now, draw)\<in>set ticks. clock_ok t0 now"
  shows "\<exists>v. logical_after t0 t1 ticks a = Inr v \<and> lo \<le> v \<and> v \<le> hi"
proof -
  have w: "ALL_REGISTERS a = Some 2" using REGISTER_LIMITS_cases [OF assms(1)] by blast
  have "within_limits a (next_value None a 0)"
    using w by (intro next_value_within) auto
  then have "within_limits a (walk a (next_value None a 0) ticks)"
    using w by (intro walk_within)
  then have "lo \<le> walk a (next_value None a 0) ticks \<and> walk a (next_value None a 0) ticks \<le> hi"
    by (simp add: within_limits_def midpoint_bounded(3) [OF assms(1)])
  with logical_after_walk [OF assms(2,3) w] show ?thesis by simp
qed

theorem bounds_containment_witness:
  "REGISTER_LIMITS 50520 = Some [0, 50000] \<and> clock_ok 0 0
   \<and> clock_ok 0 1 \<and> clock_ok 0 72
   \<and> (\<exists>v. logical_after 0 0 [(1, forced_draw 10), (72, forced_draw 40)] 50520 = Inr v
          \<and> 0 \<le> v \<and> v \<le> 50000)"
  using bounds_containment [of 50520 0 50000 0 0 "[(1, forced_draw 10), (72, forced_draw 40)]"]
    limits_50520 clock_ok_0
  by simp

subsection \<open>The store as it is built and the device as it is created\<close>

text \<open>
  Claim C6, as stated, fails: the datastore is created with the first call of \<^verbatim>\<open>_step\<close>
  already made, so immediately after its creation, with no further tick, an address
  without limits does not read 0. Address 51280 (\<^verbatim>\<open>0xC850\<close>) reads 500.
\<close>

theorem created_unbounded_counterexample:
  "ALL_REGISTERS 51280 = Some 1 \<and> REGISTER_LIMITS 51280 = None
   \<and> logical_after 0 0 [] 51280 = Inr 500"
proof -
  have "logical_after 0 0 [] 51280 = Inr 500"
    using logical_after_walk [OF clock_ok_0(1) _ width_51280, of "[]"]
      midpoint_unbounded(1) [OF limits_51280]
    by simp
  with width_51280 limits_51280 show ?thesis by simp
qed

text \<open>
  Claim C6, amended: in the store as \<^verbatim>\<open>__init__\<close> builds it, before the loop is started,
  every catalog address with limits \<open>[lo, hi]\<close> holds the logical value \<open>(lo + hi) div 2\<close>
  (the floor of the midpoint) and every catalog address without limits holds 0. On the
  device as it is created, where the first call of \<^verbatim>\<open>_step\<close> has been made, an address
  with limits still holds its midpoint, and an address without limits, other than the
  hour meter, holds 500, the midpoint of the default range. In each case the words of the
  address are the packed value.
\<close>

theorem built_and_created_values:
  assumes "ALL_REGISTERS a = Some w" "clock_ok t0 t1"
  shows "\<exists>m c. init_store INITIAL_REGISTER_VALUES = Inr m
      \<and> init_dynamic INITIAL_REGISTER_VALUES t0
          = Inr \<lparr>slots = m, last_values = Map.empty, start_time = t0\<rparr>
      \<and> create t0 t1 = Inr c
      \<and> (\<forall>lo hi. REGISTER_LIMITS a = Some [lo, hi] \<longrightarrow>
             logical_value m a = Inr ((lo + hi) div 2)
             \<and> store_getValues m a (int w) = pack_value ((lo + hi) div 2) w
             \<and> logical_value (slots (hr c)) a = Inr ((lo + hi) div 2)
             \<and> store_getValues (slots (hr c)) a (int w) = pack_value ((lo + hi) div 2) w)
      \<and> (REGISTER_LIMITS a = None \<longrightarrow>
             logical_value m a = Inr 0 \<and> store_getValues m a (int w) = pack_value 0 w
             \<and> (a \<noteq> HOUR_METER \<longrightarrow>
                  logical_value (slots (hr c)) a = Inr 500
                  \<and> store_getValues (slots (hr c)) a (int w) = pack_value 500 w))"
proof -
  from init_store_ok obtain m where m: "init_store INITIAL_REGISTER_VALUES = Inr m" by blast
  have dyn: "init_dynamic INITIAL_REGISTER_VALUES t0
          = Inr \<lparr>slots = m, last_values = Map.empty, start_time = t0\<rparr>"
    using m by (simp add: init_dynamic_def)
  from create_ok [OF assms(2)] obtain c where c: "create t0 t1 = Inr c" by blast
  note b = initial_logical [OF m assms(1)]
  note a = created_logical [OF c assms(2,1)]
  have bounded: "\<forall>lo hi. REGISTER_LIMITS a = Some [lo, hi] \<longrightarrow>
             logical_value m a = Inr ((lo + hi) div 2)
             \<and> store_getValues m a (int w) = pack_value ((lo + hi) div 2) w
             \<and> logical_value (slots (hr c)) a = Inr ((lo + hi) div 2)
             \<and> store_getValues (slots (hr c)) a (int w) = pack_value ((lo + hi) div 2) w"
    using a b midpoint_bounded(1,2) by auto
  have unbounded: "REGISTER_LIMITS a = None \<longrightarrow>
             logical_value m a = Inr 0 \<and> store_getValues m a (int w) = pack_value 0 w
             \<and> (a \<noteq> HOUR_METER \<longrightarrow>
                  logical_value (slots (hr c)) a = Inr 500
                  \<and> store_getValues (slots (hr c)) a (int w) = pack_value 500 w)"
    using a b midpoint_unbounded(1,2) by auto
  show ?thesis
  proof (intro exI [of _ m] exI [of _ c] conjI)
    show "init_store INITIAL_REGISTER_VALUES = Inr m" by (rule m)
    show "init_dynamic INITIAL_REGISTER_VALUES t0
          = Inr \<lparr>slots = m, last_values = Map.empty, start_time = t0\<rparr>" by (rule dyn)
    show "create t0 t1 = Inr c" by (rule c)
    show "\<forall>lo hi. REGISTER_LIMITS a = Some [lo, hi] \<longrightarrow>
             logical_value m a = Inr ((lo + hi) div 2)
             \<and> store_getValues m a (int w) = pack_value ((lo + hi) div 2) w
             \<and> logical_value (slots (hr c)) a = Inr ((lo + hi) div 2)
             \<and> store_getValues (slots (hr c)) a (int w) = pack_value ((lo + hi) div 2) w"
      by (rule bounded)
    show "REGISTER_LIMITS a = None \<longrightarrow>
             logical_value m a = Inr 0 \<and> store_getValues m a (int w) = pack_value 0 w
             \<and> (a \<noteq> HOUR_METER \<longrightarrow>
                  logical_value (slots (hr c)) a = Inr 500
                  \<and> store_getValues (slots (hr c)) a (int w) = pack_value 500 w)"
      by (rule unbounded)
  qed
qed

theorem built_and_created_values_witness:
  "ALL_REGISTERS 50520 = Some 2 \<and> REGISTER_LIMITS 50520 = Some [0, 50000]
   \<and> ALL_REGISTERS 51280 = Some 1 \<and> REGISTER_LIMITS 51280 = None \<and> 51280 \<noteq> HOUR_METER
   \<and> clock_ok 0 0
   \<and> (\<exists>m c. init_store INITIAL_REGISTER_VALUES = Inr m \<and> create 0 0 = Inr c
        \<and> logical_value m 50520 = Inr 25000 \<and> logical_value (slots (hr c)) 50520 = Inr 25000
        \<and> logical_value m 51280 = Inr 0 \<and> logical_value (slots (hr c)) 51280 = Inr 500)"
proof -
  have h: "51280 \<noteq> HOUR_METER" by (simp add: HOUR_METER_def)
  from built_and_created_values [OF width_50520 clock_ok_0(1)] obtain m c where
    a: "init_store INITIAL_REGISTER_VALUES = Inr m" "create 0 0 = Inr c"
      "\<forall>lo hi. REGISTER_LIMITS 50520 = Some [lo, hi] \<longrightarrow>
             logical_value m 50520 = Inr ((lo + hi) div 2)
             \<and> store_getValues m 50520 (int 2) = pack_value ((lo + hi) div 2) 2
             \<and> logical_value (slots (hr c)) 50520 = Inr ((lo + hi) div 2)
             \<and> store_getValues (slots (hr c)) 50520 (int 2) = pack_value ((lo + hi) div 2) 2"
    by (elim exE conjE) (rule that)
  from built_and_created_values [OF width_51280 clock_ok_0(1)] obtain m' c' where
    b: "init_store INITIAL_REGISTER_VALUES = Inr m'" "create 0 0 = Inr c'"
      "REGISTER_LIMITS 51280 = None \<longrightarrow>
             logical_value m' 51280 = Inr 0 \<and> store_getValues m' 51280 (int 1) = pack_value 0 1
             \<and> (51280 \<noteq> HOUR_METER \<longrightarrow>
                  logical_value (slots (hr c')) 51280 = Inr 500
                  \<and> store_getValues (slots (hr c')) 51280 (int 1) = pack_value 500 1)"
    by (elim exE conjE) (rule that)
  have eq: "m' = m" "c' = c" using a(1,2) b(1,2) by simp_all
  have "logical_value m 50520 = Inr 25000" "logical_value (slots (hr c)) 50520 = Inr 25000"
    using a(3) limits_50520 by simp_all
  moreover have "logical_value m 51280 = Inr 0" "logical_value (slots (hr c)) 51280 = Inr 500"
    using b(3) limits_51280 h eq by simp_all
  ultimately show ?thesis
    using width_50520 limits_50520 width_51280 limits_51280 h clock_ok_0(1) a(1,2)
    by (intro conjI exI [of _ m] exI [of _ c])
qed

subsection \<open>Round trip of the codec\<close>

text \<open>
  Claim C7: for every width \<open>w\<close> of 1, 2 or 4 words and every signed integer \<open>v\<close>
  representable in \<open>16 * w\<close> bits, packing \<open>v\<close> succeeds and gives \<open>w\<close> words, each of
  them a 16-bit word (from 0 to 65535), which are the 16-bit groups of \<open>v\<close> with the
  highest group first: read as digits to the base 65536 they make the two's complement
  \<open>v mod 2 ^ (16 * w)\<close>. Unpacking these words yields \<open>v\<close> again.
\<close>

theorem pack_unpack_roundtrip:
  assumes "w = 1 \<or> w = 2 \<or> w = 4"
    and "- (2 ^ (16 * w - 1)) \<le> v" and "v < 2 ^ (16 * w - 1)"
  shows "\<exists>ws. pack_value v w = Inr ws \<and> length ws = w
      \<and> (\<forall>x\<in>set ws. 0 \<le> x \<and> x < 65536)
      \<and> (\<forall>i<w. ws ! i = (v div 65536 ^ (w - 1 - i)) mod 65536)
      \<and> foldl (\<lambda>acc x. acc * 65536 + x) 0 ws = v mod 2 ^ (16 * w)
      \<and> unpack_value ws = Inr v"
proof -
  have "fits v w" using assms(2,3) by (simp add: fits_def)
  with assms(1) have "pack_value v w = Inr (words_of v w)" "unpack_value (words_of v w) = Inr v"
    by (simp_all add: pack_value_words_of unpack_words_of)
  moreover have "\<forall>x\<in>set (words_of v w). 0 \<le> x \<and> x < 65536"
    using words_of_range [of v w] by (simp add: list_all_iff)
  ultimately show ?thesis
    using value_of_words [OF assms(1), of v]
    by (intro exI [of _ "words_of v w"]) (simp add: length_words_of nth_words_of)
qed

theorem pack_unpack_roundtrip_witness:
  "((4::nat) = 1 \<or> (4::nat) = 2 \<or> (4::nat) = 4)
   \<and> - (2 ^ (16 * 4 - 1)) \<le> (-1::int) \<and> (-1::int) < 2 ^ (16 * 4 - 1)
   \<and> pack_value (-1) 4 = Inr [65535, 65535, 65535, 65535]
   \<and> unpack_value [65535, 65535, 65535, 65535] = Inr (-1)
   \<and> unpack_value [0, 0, 0, -1] = Inl StructError"
proof -
  from pack_unpack_roundtrip [of 4 "-1"] obtain ws where
    ws: "pack_value (-1) 4 = Inr ws" "length ws = 4"
      "\<forall>i<4. ws ! i = ((-1) div 65536 ^ (4 - 1 - i)) mod 65536"
      "unpack_value ws = Inr (-1)"
    by auto
  have "ws = [65535, 65535, 65535, 65535]"
  proof (rule nth_equalityI)
    show "length ws = length [65535, 65535, 65535, 65535 :: int]" using ws(2) by simp
  next
    fix i assume "i < length ws"
    then have "i < 4" using ws(2) by simp
    then consider "i = 0" | "i = 1" | "i = 2" | "i = 3" by linarith
    then show "ws ! i = [65535, 65535, 65535, 65535] ! i"
      using ws(3) by cases simp_all
  qed
  with ws(1,4) show ?thesis by (simp add: unpack_value_def)
qed

subsection \<open>Addresses pass through the context unshifted\<close>

text \<open>
  Claim C8: for every function code, address and count or list of values, each of the
  three operations of the context acts on the store of the function code's family at the
  address it was given, with no offset added. An unknown function code is a failed
  lookup. For the holding registers, a request is valid iff its count is not 0 and the
  slots \<open>[address, address + count)\<close> themselves are backed; a read returns the words of
  exactly these slots, or fails if one is not backed; a write puts the values into the
  slots \<open>[address, address + len(values))\<close> and changes nothing else, so that reading the
  same address returns them. For a sequential store that starts at \<open>seq_address b\<close>, a
  request is valid iff it lies between the two ends of the list; a valid read returns the
  elements from index \<open>address - seq_address b\<close> on; a write within the list replaces
  exactly these elements, and changes no other store.
\<close>

theorem context_addresses_unshifted:
  "(decode fx = None \<longrightarrow>
      validate ctx fx address count = Inl KeyError
      \<and> getValues ctx fx address count = Inl KeyError
      \<and> setValues ctx fx address vals = Inl KeyError)
   \<and> (decode fx = Some HoldingRegisters \<longrightarrow>
      validate ctx fx address count
        = Inr (count \<noteq> 0
               \<and> (\<forall>a. address \<le> a \<and> a < address + count \<longrightarrow> a \<in> dom (slots (hr ctx))))
      \<and> ((\<forall>a. address \<le> a \<and> a < address + count \<longrightarrow> a \<in> dom (slots (hr ctx))) \<longrightarrow>
            (\<exists>ws. getValues ctx fx address count = Inr ws \<and> length ws = nat count
               \<and> (\<forall>i<nat count. slots (hr ctx) (address + int i) = Some (ws ! i))))
      \<and> (\<not> (\<forall>a. address \<le> a \<and> a < address + count \<longrightarrow> a \<in> dom (slots (hr ctx))) \<longrightarrow>
            getValues ctx fx address count = Inl KeyError)
      \<and> (\<exists>ctx'. setValues ctx fx address vals = Inr ctx'
            \<and> (\<forall>i<length vals. slots (hr ctx') (address + int i) = Some (vals ! i))
            \<and> (\<forall>a. \<not> (address \<le> a \<and> a < address + int (length vals)) \<longrightarrow>
                   slots (hr ctx') a = slots (hr ctx) a)
            \<and> last_values (hr ctx') = last_values (hr ctx)
            \<and> start_time (hr ctx') = start_time (hr ctx)
            \<and> di ctx' = di ctx \<and> co ctx' = co ctx \<and> ir ctx' = ir ctx
            \<and> getValues ctx' fx address (int (length vals)) = Inr vals))
   \<and> (\<forall>f b. decode fx = Some f \<and> sequential_store ctx f = Some b \<longrightarrow>
      validate ctx fx address count
        = Inr (seq_address b \<le> address
               \<and> address + count \<le> seq_address b + int (length (seq_values b)))
      \<and> (\<exists>ws. getValues ctx fx address count = Inr ws
            \<and> (seq_address b \<le> address \<and> 0 \<le> count
                 \<and> address + count \<le> seq_address b + int (length (seq_values b)) \<longrightarrow>
                 length ws = nat count
                 \<and> (\<forall>i<nat count. ws ! i = seq_values b ! (nat (address - seq_address b) + i))))
      \<and> (\<exists>ctx' b'. setValues ctx fx address vals = Inr ctx'
            \<and> sequential_store ctx' f = Some b' \<and> seq_address b' = seq_address b
            \<and> hr ctx' = hr ctx
            \<and> (\<forall>g. g \<noteq> f \<longrightarrow> sequential_store ctx' g = sequential_store ctx g)
            \<and> (seq_address b \<le> address
                 \<and> address + int (length vals) \<le> seq_address b + int (length (seq_values b)) \<longrightarrow>
                 length (seq_values b') = length (seq_values b)
                 \<and> (\<forall>i<length vals.
                        seq_values b' ! (nat (address - seq_address b) + i) = vals ! i)
                 \<and> (\<forall>j<length (seq_values b).
                        \<not> (nat (address - seq_address b) \<le> j
                           \<and> j < nat (address - seq_address b) + length vals) \<longrightarrow>
                        seq_values b' ! j = seq_values b ! j)
                 \<and> getValues ctx' fx address (int (length vals)) = Inr vals)))"
proof (intro conjI impI allI)
  assume "decode fx = None"
  then show "validate ctx fx address count = Inl KeyError"
    "getValues ctx fx address count = Inl KeyError"
    "setValues ctx fx address vals = Inl KeyError"
    by (simp_all add: validate_def getValues_def setValues_def)
next
  assume h: "decode fx = Some HoldingRegisters"
  show "validate ctx fx address count
        = Inr (count \<noteq> 0
               \<and> (\<forall>a. address \<le> a \<and> a < address + count \<longrightarrow> a \<in> dom (slots (hr ctx))))"
    using h by (rule holding_validate)
  show "\<exists>ctx'. setValues ctx fx address vals = Inr ctx'
            \<and> (\<forall>i<length vals. slots (hr ctx') (address + int i) = Some (vals ! i))
            \<and> (\<forall>a. \<not> (address \<le> a \<and> a < address + int (length vals)) \<longrightarrow>
                   slots (hr ctx') a = slots (hr ctx) a)
            \<and> last_values (hr ctx') = last_values (hr ctx)
            \<and> start_time (hr ctx') = start_time (hr ctx)
            \<and> di ctx' = di ctx \<and> co ctx' = co ctx \<and> ir ctx' = ir ctx
            \<and> getValues ctx' fx address (int (length vals)) = Inr vals"
    using h by (rule holding_setValues)
next
  assume h: "decode fx = Some HoldingRegisters"
    and b: "\<forall>a. address \<le> a \<and> a < address + count \<longrightarrow> a \<in> dom (slots (hr ctx))"
  show "\<exists>ws. getValues ctx fx address count = Inr ws \<and> length ws = nat count
               \<and> (\<forall>i<nat count. slots (hr ctx) (address + int i) = Some (ws ! i))"
    using store_getValues_nth [OF b] by (simp add: holding_getValues [OF h])
next
  assume h: "decode fx = Some HoldingRegisters"
    and b: "\<not> (\<forall>a. address \<le> a \<and> a < address + count \<longrightarrow> a \<in> dom (slots (hr ctx)))"
  show "getValues ctx fx address count = Inl KeyError"
    using store_getValues_unbacked [OF b] by (simp add: holding_getValues [OF h])
next
  fix f b assume a: "decode fx = Some f \<and> sequential_store ctx f = Some b"
  then have d: "decode fx = Some f" and sb: "sequential_store ctx f = Some b" by simp_all
  note ops = sequential_ops [OF d sb]
  show "validate ctx fx address count
        = Inr (seq_address b \<le> address
               \<and> address + count \<le> seq_address b + int (length (seq_values b)))"
    using ops(1) [of address count] by (simp add: seq_validate_def)
  show "\<exists>ws. getValues ctx fx address count = Inr ws
            \<and> (seq_address b \<le> address \<and> 0 \<le> count
                 \<and> address + count \<le> seq_address b + int (length (seq_values b)) \<longrightarrow>
                 length ws = nat count
                 \<and> (\<forall>i<nat count. ws ! i = seq_values b ! (nat (address - seq_address b) + i)))"
    using ops(2) [of address count] seq_getValues_in_range [of b address count]
    by (intro exI [of _ "seq_getValues b address count"]) simp
  from ops(3) [of address vals] obtain ctx' where
    c: "setValues ctx fx address vals = Inr ctx'"
      "sequential_store ctx' f = Some (seq_setValues b address vals)"
      "hr ctx' = hr ctx"
      "\<forall>g. g \<noteq> f \<longrightarrow> sequential_store ctx' g = sequential_store ctx g"
      "getValues ctx' fx address (int (length vals))
           = Inr (seq_getValues (seq_setValues b address vals) address (int (length vals)))"
    by (elim exE conjE) (rule that)
  have adr: "seq_address (seq_setValues b address vals) = seq_address b"
    by (simp add: seq_setValues_def Let_def)
  show "\<exists>ctx' b'. setValues ctx fx address vals = Inr ctx'
            \<and> sequential_store ctx' f = Some b' \<and> seq_address b' = seq_address b
            \<and> hr ctx' = hr ctx
            \<and> (\<forall>g. g \<noteq> f \<longrightarrow> sequential_store ctx' g = sequential_store ctx g)
            \<and> (seq_address b \<le> address
                 \<and> address + int (length vals) \<le> seq_address b + int (length (seq_values b)) \<longrightarrow>
                 length (seq_values b') = length (seq_values b)
                 \<and> (\<forall>i<length vals.
                        seq_values b' ! (nat (address - seq_address b) + i) = vals ! i)
                 \<and> (\<forall>j<length (seq_values b).
                        \<not> (nat (address - seq_address b) \<le> j
                           \<and> j < nat (address - seq_address b) + length vals) \<longrightarrow>
                        seq_values b' ! j = seq_values b ! j)
                 \<and> getValues ctx' fx address (int (length vals)) = Inr vals)"
    using c adr seq_setValues_in_range [of b address vals]
    by (intro exI [of _ ctx'] exI [of _ "seq_setValues b address vals"]) simp
qed

theorem context_addresses_unshifted_witness:
  "decode 3 = Some HoldingRegisters \<and> decode 16 = Some HoldingRegisters
   \<and> decode 1 = Some Coils \<and> decode 5 = Some Coils
   \<and> sequential_store example_context Coils = Some \<lparr>seq_address = 0, seq_values = [1]\<rparr>
   \<and> validate example_context 3 50520 2 = Inr True
   \<and> validate example_context 3 50521 2 = Inr False
   \<and> validate example_context 3 50520 0 = Inr False
   \<and> getValues example_context 3 50520 2 = Inr [0, 25000]
   \<and> getValues example_context 3 50521 2 = Inl KeyError
   \<and> (\<exists>ctx'. setValues example_context 16 50520 [7, 8] = Inr ctx'
         \<and> slots (hr ctx') 50520 = Some 7 \<and> slots (hr ctx') 50521 = Some 8
         \<and> getValues ctx' 16 50520 2 = Inr [7, 8])
   \<and> validate example_context 1 0 1 = Inr True
   \<and> validate example_context 1 1 1 = Inr False
   \<and> getValues example_context 1 0 1 = Inr [1]
   \<and> getValues example_context 1 0 2 = Inr [1]
   \<and> (\<exists>ctx'. setValues example_context 5 0 [9] = Inr ctx' \<and> seq_values (co ctx') = [9]
         \<and> getValues ctx' 5 0 1 = Inr [9])
   \<and> (\<exists>ctx'. setValues example_context 5 5 [9] = Inr ctx' \<and> seq_values (co ctx') = [1, 9])"
proof -
  note d = decode_codes
  have sc: "sequential_store example_context Coils = Some \<lparr>seq_address = 0, seq_values = [1]\<rparr>"
    by (simp add: sequential_store_def example_context_def)
  have v1: "validate example_context 3 50520 2 = Inr True"
    using context_addresses_unshifted [of 3 example_context 50520 2 "[]", THEN conjunct2,
        THEN conjunct1, rule_format, OF d(1), THEN conjunct1]
    by (auto simp: example_slots(3))
  have nb: "\<not> (\<forall>a. 50521 \<le> a \<and> a < 50521 + 2 \<longrightarrow> a \<in> dom (slots (hr example_context)))"
    by (auto simp: example_slots(3) intro!: exI [of _ 50522])
  have v2: "validate example_context 3 50521 2 = Inr False"
    using context_addresses_unshifted [of 3 example_context 50521 2 "[]", THEN conjunct2,
        THEN conjunct1, rule_format, OF d(1), THEN conjunct1] nb
    by simp
  have v3: "validate example_context 3 50520 0 = Inr False"
    using context_addresses_unshifted [of 3 example_context 50520 0 "[]", THEN conjunct2,
        THEN conjunct1, rule_format, OF d(1), THEN conjunct1]
    by simp
  have g1: "getValues example_context 3 50520 2 = Inr [0, 25000]"
    using d(1) example_slots(1,2)
    by (simp add: getValues_def store_getValues_words [of "[0, 25000]" 2, simplified]
        less_2_cases_iff)
  have g2: "getValues example_context 3 50521 2 = Inl KeyError"
    using context_addresses_unshifted [of 3 example_context 50521 2 "[]", THEN conjunct2,
        THEN conjunct1, rule_format, OF d(1), THEN conjunct2, THEN conjunct2, THEN conjunct1,
        rule_format, OF nb] .
  from context_addresses_unshifted [of 16 example_context 50520 2 "[7, 8]", THEN conjunct2,
      THEN conjunct1, rule_format, OF d(2), THEN conjunct2, THEN conjunct2, THEN conjunct2]
  obtain ctx' where
    w: "setValues example_context 16 50520 [7, 8] = Inr ctx'"
      "\<forall>i<length [7, 8 :: int]. slots (hr ctx') (50520 + int i) = Some ([7, 8] ! i)"
      "getValues ctx' 16 50520 (int (length [7, 8 :: int])) = Inr [7, 8]"
    by auto
  have w1: "slots (hr ctx') 50520 = Some 7" using w(2) [rule_format, of 0] by simp
  have w2: "slots (hr ctx') 50521 = Some 8" using w(2) [rule_format, of 1] by simp
  have w3: "getValues ctx' 16 50520 2 = Inr [7, 8]" using w(3) by simp
  have s1: "validate example_context 1 0 1 = Inr True"
    "validate example_context 1 1 1 = Inr False"
    using d(3) by (simp_all add: validate_def seq_validate_def example_context_def)
  have s2: "getValues example_context 1 0 1 = Inr [1]" "getValues example_context 1 0 2 = Inr [1]"
    using d(3)
    by (simp_all add: getValues_def seq_getValues_def py_slice_def slice_bound_def
        example_context_def)
  have s3: "\<exists>ctx'. setValues example_context 5 0 [9] = Inr ctx' \<and> seq_values (co ctx') = [9]
         \<and> getValues ctx' 5 0 1 = Inr [9]"
    using d(4)
    by (simp add: setValues_def getValues_def seq_setValues_def seq_getValues_def
        py_slice_assign_def py_slice_def slice_bound_def example_context_def)
  have s4: "\<exists>ctx'. setValues example_context 5 5 [9] = Inr ctx' \<and> seq_values (co ctx') = [1, 9]"
    using d(4)
    by (simp add: setValues_def seq_setValues_def py_slice_assign_def slice_bound_def
        example_context_def)
  have s0: "\<exists>ctx'. setValues example_context 16 50520 [7, 8] = Inr ctx'
         \<and> slots (hr ctx') 50520 = Some 7 \<and> slots (hr ctx') 50521 = Some 8
         \<and> getValues ctx' 16 50520 2 = Inr [7, 8]"
    using w(1) w1 w2 w3 by blast
  from d sc v1 v2 v3 g1 g2 s0 s1 s2 s3 s4 show ?thesis by (intro conjI)
qed

subsection \<open>Writes of any length to the holding registers\<close>

text \<open>
  Claim C9, as stated, fails: address 50520 is a register of two words; a write of the
  single value 7 to it is not rejected and changes the first of its two words, so that
  the register reads \<open>[7, 25000]\<close> instead of \<open>[0, 25000]\<close>.
\<close>

theorem mismatched_write_counterexample:
  "ALL_REGISTERS 50520 = Some 2 \<and> length [7::int] = 1
   \<and> write_then_read 0 0 16 50520 [] 50520 2 = Inr [0, 25000]
   \<and> write_then_read 0 0 16 50520 [7] 50520 2 = Inr [7, 25000]"
proof -
  from create_slots [OF clock_ok_0(1) width_50520] obtain c where
    c: "create 0 0 = Inr c"
      "\<forall>i<2. slots (hr c) (50520 + int i) = Some (words_of (next_value None 50520 0) 2 ! i)"
    by blast
  have mid: "next_value None 50520 0 = 25000"
    using midpoint_bounded(1) [OF limits_50520] by simp
  have w: "words_of 25000 2 = [0, 25000]" by (simp add: words_of_def upt_2)
  have s0: "slots (hr c) 50520 = Some 0"
    using c(2) [rule_format, of 0] by (simp add: mid w)
  have s1: "slots (hr c) 50521 = Some 25000"
    using c(2) [rule_format, of 1] by (simp add: mid w)
  note d = decode_codes(2)
  have put: "setValues c 16 50520 vals
               = Inr (c\<lparr>hr := (hr c)\<lparr>slots := slots (hr c) ++ block 50520 vals\<rparr>\<rparr>)" for vals
    using d by (simp add: setValues_def store_setValues_eq)
  have get: "getValues (c\<lparr>hr := (hr c)\<lparr>slots := sl\<rparr>\<rparr>) 16 50520 2
               = store_getValues sl 50520 2" for sl
    using d by (simp add: getValues_def)
  have e: "slots (hr c) ++ block 50520 [] = slots (hr c)"
    by (auto simp: block_def map_add_def fun_eq_iff)
  have "store_getValues (slots (hr c)) 50520 (int 2) = Inr [0, 25000]"
    by (rule store_getValues_words) (auto simp: less_2_cases_iff s0 s1)
  moreover have "setValues c 16 50520 [] = Inr c"
    using d by (simp add: setValues_def store_setValues_eq e)
  moreover have "getValues c 16 50520 2 = store_getValues (slots (hr c)) 50520 2"
    using d by (simp add: getValues_def)
  ultimately have r0: "write_then_read 0 0 16 50520 [] 50520 2 = Inr [0, 25000]"
    using c(1) by (simp add: write_then_read_def)
  have "store_getValues (slots (hr c) ++ block 50520 [7]) 50520 (int 2) = Inr [7, 25000]"
    by (rule store_getValues_words) (auto simp: less_2_cases_iff s1 block_def map_add_def)
  then have r1: "write_then_read 0 0 16 50520 [7] 50520 2 = Inr [7, 25000]"
    using c(1) by (simp add: write_then_read_def put get)
  from width_50520 r0 r1 show ?thesis by simp
qed

text \<open>
  Claim C9, amended: a write to the holding registers is never rejected for the number
  of values it supplies. Whatever that number and whatever the widths of the registers
  addressed, the write succeeds, overwrites exactly the word slots
  \<open>[address, address + len(values))\<close> of the register store, and leaves every other slot
  and the rest of the device unchanged.
\<close>

theorem writes_are_not_checked:
  assumes "decode fx = Some HoldingRegisters"
  shows "\<exists>ctx'. setValues ctx fx address vals = Inr ctx'
     \<and> (\<forall>i<length vals. slots (hr ctx') (address + int i) = Some (vals ! i))
     \<and> (\<forall>a. \<not> (address \<le> a \<and> a < address + int (length vals)) \<longrightarrow>
            slots (hr ctx') a = slots (hr ctx) a)
     \<and> last_values (hr ctx') = last_values (hr ctx)
     \<and> start_time (hr ctx') = start_time (hr ctx)
     \<and> di ctx' = di ctx \<and> co ctx' = co ctx \<and> ir ctx' = ir ctx"
proof -
  from holding_setValues [OF assms, of ctx address vals] obtain ctx' where
    "setValues ctx fx address vals = Inr ctx'"
    "\<forall>i<length vals. slots (hr ctx') (address + int i) = Some (vals ! i)"
    "\<forall>a. \<not> (address \<le> a \<and> a < address + int (length vals)) \<longrightarrow>
            slots (hr ctx') a = slots (hr ctx) a"
    "last_values (hr ctx') = last_values (hr ctx)"
    "start_time (hr ctx') = start_time (hr ctx)"
    "di ctx' = di ctx" "co ctx' = co ctx" "ir ctx' = ir ctx"
    by (elim exE conjE) (rule that)
  then show ?thesis by (intro exI [of _ ctx']) simp
qed

theorem writes_are_not_checked_witness:
  "decode 16 = Some HoldingRegisters \<and> ALL_REGISTERS 50520 = Some 2
   \<and> slots (hr example_context) 50520 = Some 0
   \<and> slots (hr example_context) 50521 = Some 25000
   \<and> (\<exists>ctx'. setValues example_context 16 50520 [7] = Inr ctx'
        \<and> slots (hr ctx') 50520 = Some 7
        \<and> slots (hr ctx') 50521 = Some 25000)"
proof -
  from writes_are_not_checked [OF decode_codes(2), of example_context 50520 "[7]"]
  obtain ctx' where
    a: "setValues example_context 16 50520 [7] = Inr ctx'"
      "\<forall>i<length [7::int]. slots (hr ctx') (50520 + int i) = Some ([7] ! i)"
      "\<forall>a. \<not> (50520 \<le> a \<and> a < 50520 + int (length [7::int])) \<longrightarrow>
            slots (hr ctx') a = slots (hr example_context) a"
    by (elim exE conjE) (rule that)
  from a(2) have "slots (hr ctx') 50520 = Some 7" by simp
  moreover from a(3) have "slots (hr ctx') 50521 = Some 25000"
    by (simp add: example_slots(2))
  ultimately show ?thesis
    using decode_codes(2) width_50520 example_slots(1,2) a(1)
    by (intro conjI exI [of _ ctx'])
qed

subsection \<open>Ticks keep the set of occupied slots\<close>

text \<open>
  Claim C10: every expansion of a catalog address covers exactly the slots from the
  address up to its width, all of which the store backs from the start. So after the
  device is created and after any number of ticks the set of occupied word slots is the
  one of the store as it was built, and \<^verbatim>\<open>validate\<close> gives the same verdict for every
  address and count.
\<close>

theorem ticks_keep_occupied_slots:
  assumes "clock_ok t0 t1" "\<forall>(now, draw)\<in>set ticks. clock_ok t0 now"
  shows "\<exists>m c s. init_store INITIAL_REGISTER_VALUES = Inr m \<and> create t0 t1 = Inr c
      \<and> run (hr c) ticks = Inr s
      \<and> dom (slots (hr c)) = dom m \<and> dom (slots s) = dom m
      \<and> (\<forall>address count.
             store_validate (slots s) address count = store_validate m address count)
      \<and> (\<forall>k w v d. ALL_REGISTERS k = Some w \<longrightarrow> expand_register_value k v = Inr d \<longrightarrow>
             dom d = {k..<k + int w} \<and> dom d \<subseteq> dom m)"
proof -
  from init_store_ok obtain m where m: "init_store INITIAL_REGISTER_VALUES = Inr m" by blast
  have dm: "dom m = {x. covered x}" using m by (rule dom_init_store)
  from create_ok [OF assms(1)] obtain c where
    c: "create t0 t1 = Inr c" "consistent (hr c)" "start_time (hr c) = t0"
      "\<forall>x. \<not> covered x \<longrightarrow> slots (hr c) x = None"
    by blast
  have "\<forall>(now, draw)\<in>set ticks. clock_ok (start_time (hr c)) now"
    using assms(2) c(3) by simp
  from run_ok [OF c(2) this] obtain s where
    s: "run (hr c) ticks = Inr s" "consistent s"
      "\<forall>x. \<not> covered x \<longrightarrow> slots s x = slots (hr c) x"
    by blast
  have dc: "dom (slots (hr c)) = dom m" using dom_consistent [OF c(2,4)] dm by simp
  have "\<forall>x. \<not> covered x \<longrightarrow> slots s x = None" using s(3) c(4) by simp
  then have ds: "dom (slots s) = dom m" using dom_consistent [OF s(2)] dm by simp
  have v: "\<forall>address count.
             store_validate (slots s) address count = store_validate m address count"
    using store_validate_dom [OF ds] by blast
  have e: "\<forall>k w v d. ALL_REGISTERS k = Some w \<longrightarrow> expand_register_value k v = Inr d \<longrightarrow>
             dom d = {k..<k + int w} \<and> dom d \<subseteq> dom m"
    using expand_register_value_dom covered_range dm by auto
  show ?thesis
  proof (intro exI [of _ m] exI [of _ c] exI [of _ s] conjI)
    show "init_store INITIAL_REGISTER_VALUES = Inr m" by (rule m)
    show "create t0 t1 = Inr c" by (rule c(1))
    show "run (hr c) ticks = Inr s" by (rule s(1))
    show "dom (slots (hr c)) = dom m" by (rule dc)
    show "dom (slots s) = dom m" by (rule ds)
    show "\<forall>address count.
             store_validate (slots s) address count = store_validate m address count"
      by (rule v)
    show "\<forall>k w v d. ALL_REGISTERS k = Some w \<longrightarrow> expand_register_value k v = Inr d \<longrightarrow>
             dom d = {k..<k + int w} \<and> dom d \<subseteq> dom m"
      by (rule e)
  qed
qed

theorem ticks_keep_occupied_slots_witness:
  "clock_ok 0 0 \<and> clock_ok 0 1 \<and> clock_ok 0 72
   \<and> (\<exists>m c s. init_store INITIAL_REGISTER_VALUES = Inr m \<and> create 0 0 = Inr c
        \<and> run (hr c) [(1, forced_draw 10), (72, forced_draw 40)] = Inr s
        \<and> dom (slots s) = dom m
        \<and> store_validate (slots s) 50512 2 = store_validate m 50512 2)"
proof -
  have "\<forall>(now, draw)\<in>set [(1, forced_draw 10), (72, forced_draw 40)]. clock_ok 0 now"
    using clock_ok_0 by simp
  from ticks_keep_occupied_slots [OF clock_ok_0(1) this] obtain m c s where
    a: "init_store INITIAL_REGISTER_VALUES = Inr m" "create 0 0 = Inr c"
      "run (hr c) [(1, forced_draw 10), (72, forced_draw 40)] = Inr s"
      "dom (slots s) = dom m"
      "\<forall>address count.
             store_validate (slots s) address count = store_validate m address count"
    by (elim exE conjE) (rule that)
  from a(5) have "store_validate (slots s) 50512 2 = store_validate m 50512 2" by simp
  with a(1,2,3,4) clock_ok_0 show ?thesis
    by (intro conjI exI [of _ m] exI [of _ c] exI [of _ s])
qed

end
